theory Spec2Isabelle
  imports Main
begin

section \<open>Calendar days: the model of the JavaScript \<open>Date\<close> and of date-fns\<close>

text \<open>
  The planner works on civil dates. Every \<open>Date\<close> object it builds sits at local midnight
  (or, for \<open>endOfMonth\<close> and \<open>endOfWeek\<close>, at the last millisecond of a day, which
  compares like that day against midnights), so a valid \<open>Date\<close> is modelled by its day
  number: the count of calendar days since 1970-01-01. Time of day and time zones are
  not modelled. An \<open>Invalid Date\<close>, which only \<open>parseISO\<close> can produce here, is
  \<open>None\<close> in \<open>Date option\<close>.

  The text form \<open>"YYYY-MM-DD"\<close> of a date (\<open>string\<close> in \<open>types.ts\<close>) is modelled by its
  three numeric fields. The year is an unbounded integer: the four-digit limit of the
  text form is not modelled.
\<close>

type_synonym Date = int

record IsoDate =
  yyyy :: int
  MM :: int
  dd :: int

datatype error = RangeError | TypeError

definition isLeapYear :: "int \<Rightarrow> bool" where
  "isLeapYear y = (y mod 4 = 0 \<and> (y mod 100 \<noteq> 0 \<or> y mod 400 = 0))"

definition getDaysInMonth :: "int \<Rightarrow> int \<Rightarrow> int" where
  "getDaysInMonth y m =
     (if m = 2 then (if isLeapYear y then 29 else 28)
      else if m = 4 \<or> m = 6 \<or> m = 9 \<or> m = 11 then 30 else 31)"

text \<open>The triples that name a day of the proleptic Gregorian calendar.\<close>

definition validIso :: "IsoDate \<Rightarrow> bool" where
  "validIso c =
     (1 \<le> MM c \<and> MM c \<le> 12 \<and> 1 \<le> dd c \<and> dd c \<le> getDaysInMonth (yyyy c) (MM c))"

text \<open>
  Day number of a civil date, with the year counted from 1 March so that the leap day
  comes last; 719468 is the day number distance from 0000-03-01 to 1970-01-01.
\<close>

definition daysFromCivil :: "int \<Rightarrow> int \<Rightarrow> int \<Rightarrow> Date" where
  "daysFromCivil y m d =
     (let y' = (if m \<le> 2 then y - 1 else y);
          era = y' div 400;
          yoe = y' mod 400;
          mp = (if m > 2 then m - 3 else m + 9);
          doy = (153 * mp + 2) div 5 + d - 1;
          doe = yoe * 365 + yoe div 4 - yoe div 100 + doy
      in era * 146097 + doe - 719468)"

text \<open>
  The civil date of a day number: the 400-year era, then the century, the 4-year
  cycle and the year inside it, then month and day of the March-based year.
\<close>

definition civilFromDays :: "Date \<Rightarrow> IsoDate" where
  "civilFromDays z =
     (let z' = z + 719468;
          era = z' div 146097;
          doe = z' mod 146097;
          c = min 3 (doe div 36524);
          doc = doe - 36524 * c;
          q = doc div 1461;
          dq = doc mod 1461;
          yq = min 3 (dq div 365);
          doy = dq - 365 * yq;
          yoe = 100 * c + 4 * q + yq;
          mp = (5 * doy + 2) div 153;
          d = doy - (153 * mp + 2) div 5 + 1;
          m = (if mp < 10 then mp + 3 else mp - 9)
      in \<lparr>yyyy = yoe + era * 400 + (if m \<le> 2 then 1 else 0), MM = m, dd = d\<rparr>)"

text \<open>\<open>parseISO\<close>: a text that names no calendar day gives an \<open>Invalid Date\<close>.\<close>

definition parseISO :: "IsoDate \<Rightarrow> Date option" where
  "parseISO s = (if validIso s then Some (daysFromCivil (yyyy s) (MM s) (dd s)) else None)"

text \<open>\<open>format(date, 'yyyy-MM-dd')\<close> raises a \<open>RangeError\<close> on an \<open>Invalid Date\<close>.\<close>

definition format :: "Date option \<Rightarrow> error + IsoDate" where
  "format date = (case date of None \<Rightarrow> Inl RangeError | Some d \<Rightarrow> Inr (civilFromDays d))"

text \<open>
  Comparisons of \<open>Date\<close> objects go through \<open>getTime()\<close>; against an \<open>Invalid Date\<close>
  (\<open>NaN\<close>) every one of them is false.
\<close>

definition dateLe :: "Date option \<Rightarrow> Date option \<Rightarrow> bool" where
  "dateLe a b = (case (a, b) of (Some x, Some y) \<Rightarrow> x \<le> y | _ \<Rightarrow> False)"

definition dateLt :: "Date option \<Rightarrow> Date option \<Rightarrow> bool" where
  "dateLt a b = (case (a, b) of (Some x, Some y) \<Rightarrow> x < y | _ \<Rightarrow> False)"

definition isBefore :: "Date option \<Rightarrow> Date option \<Rightarrow> bool" where
  "isBefore a b = dateLt a b"

definition isAfter :: "Date option \<Rightarrow> Date option \<Rightarrow> bool" where
  "isAfter a b = dateLt b a"

text \<open>\<open>differenceInDays\<close> and \<open>addDays\<close>; \<open>None\<close> is \<open>NaN\<close>, respectively \<open>Invalid Date\<close>.\<close>

definition differenceInDays :: "Date option \<Rightarrow> Date option \<Rightarrow> int option" where
  "differenceInDays dateLeft dateRight =
     (case (dateLeft, dateRight) of (Some l, Some r) \<Rightarrow> Some (l - r) | _ \<Rightarrow> None)"

definition addDays :: "Date option \<Rightarrow> int option \<Rightarrow> Date option" where
  "addDays date amount =
     (case (date, amount) of (Some d, Some n) \<Rightarrow> Some (d + n) | _ \<Rightarrow> None)"

definition startOfDay :: "Date \<Rightarrow> Date" where
  "startOfDay d = d"

text \<open>\<open>getDay\<close>: 0 is Sunday; 1970-01-01 was a Thursday.\<close>

definition getDay :: "Date \<Rightarrow> int" where
  "getDay d = (d + 4) mod 7"

definition getDate :: "Date \<Rightarrow> int" where
  "getDate d = dd (civilFromDays d)"

definition startOfMonth :: "Date \<Rightarrow> Date" where
  "startOfMonth d = (let c = civilFromDays d in daysFromCivil (yyyy c) (MM c) 1)"

definition endOfMonth :: "Date \<Rightarrow> Date" where
  "endOfMonth d =
     (let c = civilFromDays d
      in daysFromCivil (yyyy c) (MM c) (getDaysInMonth (yyyy c) (MM c)))"

definition startOfWeek :: "int \<Rightarrow> Date \<Rightarrow> Date" where
  "startOfWeek weekStartsOn d =
     (let day = getDay d;
          diff = (if day < weekStartsOn then 7 else 0) + day - weekStartsOn
      in d - diff)"

definition endOfWeek :: "int \<Rightarrow> Date \<Rightarrow> Date" where
  "endOfWeek weekStartsOn d =
     (let day = getDay d;
          diff = (if day < weekStartsOn then - 7 else 0) + 6 - (day - weekStartsOn)
      in d + diff)"

text \<open>
  \<open>eachDayOfInterval\<close>: every day from \<open>start\<close> to \<open>end\<close>. On a reversed interval
  date-fns 2 raises a \<open>RangeError\<close> (later versions differ); \<open>generateMonthGrid\<close> never
  passes one.
\<close>

definition eachDayOfInterval :: "Date \<Rightarrow> Date \<Rightarrow> error + Date list" where
  "eachDayOfInterval start end' = (if end' < start then Inl RangeError else Inr [start..end'])"

text \<open>\<open>Array.prototype.findIndex\<close>: the first index whose element passes, or -1.\<close>

fun findIndex :: "('a \<Rightarrow> bool) \<Rightarrow> 'a list \<Rightarrow> int" where
  "findIndex P [] = - 1"
| "findIndex P (x # xs) =
     (if P x then 0 else (let i = findIndex P xs in if i = - 1 then - 1 else i + 1))"

section \<open>\<open>types.ts\<close>\<close>

datatype Category = ToDo | InProgress | Review | Completed

text \<open>Fields \<open>id\<close>, \<open>name\<close>, \<open>category\<close>, \<open>start\<close>, \<open>end\<close> of \<open>Task\<close>.\<close>

record Task =
  task_id :: string
  task_name :: string
  task_category :: Category
  task_start :: IsoDate
  task_end :: IsoDate

text \<open>Fields \<open>start\<close>, \<open>end\<close> of \<open>DateRange\<close>.\<close>

record DateRange =
  range_start :: IsoDate
  range_end :: IsoDate

text \<open>Fields \<open>start?\<close>, \<open>end?\<close>, \<open>isSelecting\<close> of \<open>SelectionState\<close>.\<close>

record SelectionState =
  sel_start :: "IsoDate option"
  sel_end :: "IsoDate option"
  isSelecting :: bool

text \<open>Fields \<open>open\<close>, \<open>draftRange?\<close>, \<open>editingTaskId?\<close> of \<open>ModalState\<close>.\<close>

record ModalState =
  modal_open :: bool
  draftRange :: "DateRange option"
  editingTaskId :: "string option"

record FilterState =
  search :: string
  categories :: "Category list"
  timeRangeWeeks :: nat

record AppState =
  tasks :: "Task list"
  selection :: SelectionState
  modal :: ModalState
  filters :: FilterState
  currentMonth :: Date

section \<open>\<open>lib/dates.ts\<close>\<close>

definition WEEK_START_DAY :: int where
  "WEEK_START_DAY = 0"

record CalendarDay =
  date :: Date
  isCurrentMonth :: bool
  isoDate :: IsoDate
  dayNumber :: int
  isToday :: bool

record WeekRow =
  days :: "CalendarDay list"
  startDate :: Date
  endDate :: Date

text \<open>
  The body of \<open>allDays.forEach((date, index) => ...)\<close> in \<open>generateMonthGrid\<close>, with the
  two arrays it updates passed along. \<open>today\<close> is the day \<open>isToday\<close> reads from the
  clock. \<open>currentWeek[6].date\<close> raises a \<open>TypeError\<close> when the week has fewer than 7
  days.
\<close>

fun gridLoop ::
  "Date \<Rightarrow> Date \<Rightarrow> Date \<Rightarrow> Date list \<Rightarrow> nat \<Rightarrow> WeekRow list \<Rightarrow> CalendarDay list
    \<Rightarrow> error + WeekRow list" where
  "gridLoop today monthStart monthEnd [] index weeks currentWeek = Inr weeks"
| "gridLoop today monthStart monthEnd (d # rest) index weeks currentWeek =
     (case format (Some d) of
        Inl e \<Rightarrow> Inl e
      | Inr isoText \<Rightarrow>
          (let day = \<lparr>date = d,
                      isCurrentMonth = (monthStart \<le> d \<and> d \<le> monthEnd),
                      isoDate = isoText,
                      dayNumber = getDate d,
                      isToday = (d = today)\<rparr>;
               currentWeek' = currentWeek @ [day]
           in if Suc index mod 7 = 0
              then (if length currentWeek' < 7 then Inl TypeError
                    else gridLoop today monthStart monthEnd rest (Suc index)
                           (weeks @ [\<lparr>days = currentWeek',
                                      startDate = date (currentWeek' ! 0),
                                      endDate = date (currentWeek' ! 6)\<rparr>])
                           [])
              else gridLoop today monthStart monthEnd rest (Suc index) weeks currentWeek'))"

definition generateMonthGrid :: "Date \<Rightarrow> Date \<Rightarrow> error + WeekRow list" where
  "generateMonthGrid today month =
     (let monthStart = startOfMonth month;
          monthEnd = endOfMonth month;
          calendarStart = startOfWeek WEEK_START_DAY monthStart;
          calendarEnd = endOfWeek WEEK_START_DAY monthEnd
      in case eachDayOfInterval calendarStart calendarEnd of
           Inl e \<Rightarrow> Inl e
         | Inr allDays \<Rightarrow> gridLoop today monthStart monthEnd allDays 0 [] [])"

definition normalizeDateRange :: "IsoDate \<Rightarrow> IsoDate \<Rightarrow> DateRange" where
  "normalizeDateRange start end' =
     (let startDate = parseISO start;
          endDate = parseISO end'
      in if dateLe startDate endDate
         then \<lparr>range_start = start, range_end = end'\<rparr>
         else \<lparr>range_start = end', range_end = start\<rparr>)"

text \<open>The result is a JavaScript number; \<open>None\<close> is \<open>NaN\<close>.\<close>

definition dayCountInclusive :: "IsoDate \<Rightarrow> IsoDate \<Rightarrow> int option" where
  "dayCountInclusive start end' =
     (let startDate = parseISO start;
          endDate = parseISO end'
      in map_option (\<lambda>n. n + 1) (differenceInDays endDate startDate))"

definition dateRangesOverlap :: "DateRange \<Rightarrow> DateRange \<Rightarrow> bool" where
  "dateRangesOverlap range1 range2 =
     (let start1 = parseISO (range_start range1);
          end1 = parseISO (range_end range1);
          start2 = parseISO (range_start range2);
          end2 = parseISO (range_end range2)
      in dateLe start1 end2 \<and> dateLe start2 end1)"

section \<open>\<open>lib/taskSegments.ts\<close>\<close>

text \<open>Fields \<open>task\<close>, \<open>startDate\<close>, \<open>endDate\<close>, \<open>startColumn\<close>, \<open>widthInColumns\<close>,
  \<open>rowIndex\<close> of \<open>TaskSegment\<close>.\<close>

record TaskSegment =
  task :: Task
  segStartDate :: IsoDate
  segEndDate :: IsoDate
  startColumn :: int
  widthInColumns :: int
  rowIndex :: nat

text \<open>
  \<open>weekRows.forEach(weekRow => ...)\<close> in \<open>calculateTaskSegments\<close>, with the array
  \<open>segments\<close> it pushes to. A \<open>return\<close> inside the callback goes on with the next week.
\<close>

fun segmentsLoop :: "Task \<Rightarrow> WeekRow list \<Rightarrow> TaskSegment list \<Rightarrow> error + TaskSegment list" where
  "segmentsLoop t [] segments = Inr segments"
| "segmentsLoop t (weekRow # rest) segments =
     (let taskStart = parseISO (task_start t);
          taskEnd = parseISO (task_end t);
          weekStart = startOfDay (startDate weekRow);
          weekEnd = startOfDay (endDate weekRow)
      in if isAfter taskStart (Some weekEnd) \<or> isBefore taskEnd (Some weekStart)
         then segmentsLoop t rest segments
         else
           (let segmentStartDate =
                  (if isBefore taskStart (Some weekStart) then Some weekStart else taskStart);
                segmentEndDate =
                  (if isAfter taskEnd (Some weekEnd) then Some weekEnd else taskEnd);
                startCol = findIndex (\<lambda>day. Some (date day) = segmentStartDate) (days weekRow);
                endCol = findIndex (\<lambda>day. Some (date day) = segmentEndDate) (days weekRow)
            in if startCol = - 1 \<or> endCol = - 1
               then segmentsLoop t rest segments
               else
                 (case format segmentStartDate of
                    Inl e \<Rightarrow> Inl e
                  | Inr segmentStartISO \<Rightarrow>
                      (case format segmentEndDate of
                         Inl e \<Rightarrow> Inl e
                       | Inr segmentEndISO \<Rightarrow>
                           segmentsLoop t rest
                             (segments @
                               [\<lparr>task = t,
                                 segStartDate = segmentStartISO,
                                 segEndDate = segmentEndISO,
                                 startColumn = startCol,
                                 widthInColumns = endCol - startCol + 1,
                                 rowIndex = 0\<rparr>])))))"

definition calculateTaskSegments :: "Task \<Rightarrow> WeekRow list \<Rightarrow> error + TaskSegment list" where
  "calculateTaskSegments t weekRows = segmentsLoop t weekRows []"

definition segmentsOverlap :: "TaskSegment \<Rightarrow> TaskSegment \<Rightarrow> bool" where
  "segmentsOverlap seg1 seg2 =
     (let seg1EndCol = startColumn seg1 + widthInColumns seg1 - 1;
          seg2EndCol = startColumn seg2 + widthInColumns seg2 - 1
      in \<not> (seg1EndCol < startColumn seg2 \<or> seg2EndCol < startColumn seg1))"

text \<open>
  \<open>calculateRowIndices\<close> writes \<open>rowIndex\<close> into the segment objects, which the arrays
  \<open>segments\<close>, \<open>sorted\<close> and \<open>rows[i]\<close> share. The objects are the entries of \<open>store\<close>
  (the array \<open>segments\<close>, one distinct object per position, as \<open>filter\<close> in
  \<open>groupSegmentsByWeek\<close> builds it), and a reference to one is its position.

  \<open>placeLoop\<close> is the loop \<open>while (!placed)\<close>: it returns \<open>rows\<close>, with a new empty row
  pushed when none fitted, and the final value of the variable \<open>rowIndex\<close> (\<open>rowIdx\<close>).
\<close>

function placeLoop ::
  "TaskSegment \<Rightarrow> TaskSegment list \<Rightarrow> nat list list \<Rightarrow> nat \<Rightarrow> nat list list \<times> nat" where
  "placeLoop segment store rows rowIdx =
     (if rowIdx \<ge> length rows then (rows @ [[]], rowIdx)
      else
        (let overlaps = list_ex (\<lambda>existing. segmentsOverlap segment (store ! existing))
                          (rows ! rowIdx)
         in if \<not> overlaps then (rows, rowIdx)
            else placeLoop segment store rows (rowIdx + 1)))"
  by pat_completeness auto
termination
  by (relation "measure (\<lambda>(segment, store, rows, rowIdx). length rows - rowIdx)") auto

text \<open>The body of \<open>sorted.forEach(segment => ...)\<close>; \<open>ref\<close> is the reference to \<open>segment\<close>.\<close>

definition placeSegment ::
  "nat \<Rightarrow> nat list list \<times> TaskSegment list \<Rightarrow> nat list list \<times> TaskSegment list" where
  "placeSegment ref st =
     (let rows = fst st;
          store = snd st;
          segment = store ! ref;
          (rows', rowIdx) = placeLoop segment store rows 0
      in (rows'[rowIdx := rows' ! rowIdx @ [ref]],
          store[ref := segment\<lparr>rowIndex := rowIdx\<rparr>]))"

text \<open>
  \<open>[...segments].sort((a, b) => a.startColumn - b.startColumn)\<close> is a stable sort of
  the references by \<open>startColumn\<close>. The function returns the array \<open>segments\<close> itself.
\<close>

definition calculateRowIndices :: "TaskSegment list \<Rightarrow> TaskSegment list" where
  "calculateRowIndices segments =
     (let sorted = sort_key (\<lambda>ref. startColumn (segments ! ref)) [0..<length segments]
      in snd (fold placeSegment sorted ([], segments)))"

section \<open>\<open>App.tsx\<close>: the reducer\<close>

datatype AppAction =
    SELECTION_START IsoDate
  | SELECTION_UPDATE IsoDate
  | SELECTION_END
  | MODAL_OPEN "DateRange option"
  | MODAL_CLOSE
  | TASK_CREATE string Category IsoDate IsoDate
  | TASK_MOVE string IsoDate
  | TASK_RESIZE string IsoDate IsoDate
  | FILTERS_CHANGE FilterState
  | MONTH_CHANGE Date

text \<open>
  \<open>newId\<close> is the value of \<open>`task-${Date.now()}-${Math.random()}`\<close> at the call. An
  action of type \<open>MODAL_OPEN\<close> has no \<open>case\<close> and falls to \<open>default\<close>. In \<open>TASK_MOVE\<close>
  the two \<open>format\<close> calls run in the callback of \<open>map\<close> at the first task with the
  id, which exists when \<open>find\<close> has found one.
\<close>

fun appReducer :: "string \<Rightarrow> AppState \<Rightarrow> AppAction \<Rightarrow> error + AppState" where
  "appReducer newId state (SELECTION_START isoText) =
     Inr (state\<lparr>selection :=
            \<lparr>sel_start = Some isoText, sel_end = Some isoText, isSelecting = True\<rparr>\<rparr>)"
| "appReducer newId state (SELECTION_UPDATE isoText) =
     (if \<not> isSelecting (selection state) then Inr state
      else Inr (state\<lparr>selection := (selection state)\<lparr>sel_end := Some isoText\<rparr>\<rparr>))"
| "appReducer newId state SELECTION_END =
     (case (isSelecting (selection state), sel_start (selection state),
            sel_end (selection state)) of
        (True, Some start, Some end') \<Rightarrow>
          (let normalized = normalizeDateRange start end'
           in Inr (state\<lparr>selection :=
                            \<lparr>sel_start = None, sel_end = None, isSelecting = False\<rparr>,
                          modal :=
                            \<lparr>modal_open = True, draftRange = Some normalized,
                             editingTaskId = None\<rparr>\<rparr>))
      | _ \<Rightarrow>
          Inr (state\<lparr>selection :=
                       \<lparr>sel_start = None, sel_end = None, isSelecting = False\<rparr>\<rparr>))"
| "appReducer newId state MODAL_CLOSE =
     Inr (state\<lparr>modal := \<lparr>modal_open = False, draftRange = None, editingTaskId = None\<rparr>,
                selection := \<lparr>sel_start = None, sel_end = None, isSelecting = False\<rparr>\<rparr>)"
| "appReducer newId state (TASK_CREATE name category start end') =
     (let newTask = \<lparr>task_id = newId, task_name = name, task_category = category,
                      task_start = start, task_end = end'\<rparr>
      in Inr (state\<lparr>tasks := tasks state @ [newTask],
                    modal := \<lparr>modal_open = False, draftRange = None, editingTaskId = None\<rparr>,
                    selection := \<lparr>sel_start = None, sel_end = None, isSelecting = False\<rparr>\<rparr>))"
| "appReducer newId state (TASK_MOVE taskId newStartDate) =
     (case find (\<lambda>t. task_id t = taskId) (tasks state) of
        None \<Rightarrow> Inr state
      | Some t \<Rightarrow>
          (let taskStart = parseISO (task_start t);
               taskEnd = parseISO (task_end t);
               duration = differenceInDays taskEnd taskStart;
               newStart = parseISO newStartDate;
               newEnd = addDays newStart duration
           in case format newStart of
                Inl e \<Rightarrow> Inl e
              | Inr newStartISO \<Rightarrow>
                  (case format newEnd of
                     Inl e \<Rightarrow> Inl e
                   | Inr newEndISO \<Rightarrow>
                       Inr (state\<lparr>tasks :=
                              map (\<lambda>t. if task_id t = taskId
                                        then t\<lparr>task_start := newStartISO, task_end := newEndISO\<rparr>
                                        else t)
                                (tasks state)\<rparr>))))"
| "appReducer newId state (TASK_RESIZE taskId newStart newEnd) =
     (let normalized = normalizeDateRange newStart newEnd
      in Inr (state\<lparr>tasks :=
                map (\<lambda>t. if task_id t = taskId
                          then t\<lparr>task_start := range_start normalized,
                                 task_end := range_end normalized\<rparr>
                          else t)
                  (tasks state)\<rparr>))"
| "appReducer newId state (FILTERS_CHANGE fs) = Inr (state\<lparr>filters := fs\<rparr>)"
| "appReducer newId state (MONTH_CHANGE month) = Inr (state\<lparr>currentMonth := month\<rparr>)"
| "appReducer newId state (MODAL_OPEN dr) = Inr state"

section \<open>\<open>components/TaskBar.tsx\<close>: the resize gesture\<close>

datatype ResizeSide = left | right

text \<open>
  \<open>handleResizeMove\<close> for the bar of \<open>t\<close> (\<open>segment.task\<close>). \<open>isResizing\<close> is the
  component's state (\<open>None\<close> is \<open>null\<close>); \<open>dragStart\<close> and \<open>calendarGrid\<close> tell whether
  \<open>dragStartRef.current\<close> and the grid element exist; \<open>targetDate\<close> is what \<open>findDateAtX\<close>
  resolved the pointer to (\<open>None\<close> is \<open>null\<close>). The result is the call of \<open>onResize\<close>, if
  one is made: \<open>(taskId, newStart, newEnd)\<close>.
\<close>

definition handleResizeMove ::
  "Task \<Rightarrow> ResizeSide option \<Rightarrow> bool \<Rightarrow> bool \<Rightarrow> IsoDate option
    \<Rightarrow> error + (string \<times> IsoDate \<times> IsoDate) option" where
  "handleResizeMove t isResizing dragStart calendarGrid targetDate =
     (if \<not> dragStart then Inr None
      else if \<not> calendarGrid then Inr None
      else case targetDate of
        None \<Rightarrow> Inr None
      | Some target \<Rightarrow>
          (let taskStart = parseISO (task_start t);
               taskEnd = parseISO (task_end t);
               targetDateObj = parseISO target
           in case isResizing of
                Some left \<Rightarrow>
                  (if dateLt taskEnd targetDateObj
                   then (case format taskEnd of
                           Inl e \<Rightarrow> Inl e
                         | Inr e1 \<Rightarrow> Inr (Some (task_id t, e1, e1)))
                   else (case format taskEnd of
                           Inl e \<Rightarrow> Inl e
                         | Inr e1 \<Rightarrow> Inr (Some (task_id t, target, e1))))
              | Some right \<Rightarrow>
                  (if dateLt targetDateObj taskStart
                   then (case format taskStart of
                           Inl e \<Rightarrow> Inl e
                         | Inr s1 \<Rightarrow> Inr (Some (task_id t, s1, s1)))
                   else (case format taskStart of
                           Inl e \<Rightarrow> Inl e
                         | Inr s1 \<Rightarrow> Inr (Some (task_id t, s1, target))))
              | None \<Rightarrow> Inr None))"

text \<open>\<open>handleTaskResize\<close> of \<open>App.tsx\<close> dispatches the call of \<open>onResize\<close> to the reducer.\<close>

definition handleTaskResize :: "string \<times> IsoDate \<times> IsoDate \<Rightarrow> AppAction" where
  "handleTaskResize ev = (case ev of (taskId, newStart, newEnd) \<Rightarrow> TASK_RESIZE taskId newStart newEnd)"

section \<open>Descriptions used in the statements and proofs\<close>

text \<open>The cell that \<open>generateMonthGrid\<close> builds for the day \<open>d\<close>.\<close>

definition calendarDay :: "Date \<Rightarrow> Date \<Rightarrow> Date \<Rightarrow> Date \<Rightarrow> CalendarDay" where
  "calendarDay today monthStart monthEnd d =
     \<lparr>date = d,
      isCurrentMonth = (monthStart \<le> d \<and> d \<le> monthEnd),
      isoDate = civilFromDays d,
      dayNumber = getDate d,
      isToday = (d = today)\<rparr>"

text \<open>The week row of the seven days from \<open>s\<close> on, and \<open>n\<close> such rows in sequence.\<close>

definition weekFrom :: "Date \<Rightarrow> Date \<Rightarrow> Date \<Rightarrow> Date \<Rightarrow> WeekRow" where
  "weekFrom today monthStart monthEnd s =
     \<lparr>days = map (calendarDay today monthStart monthEnd) [s..s + 6],
      startDate = s,
      endDate = s + 6\<rparr>"

fun weeksFrom :: "Date \<Rightarrow> Date \<Rightarrow> Date \<Rightarrow> Date \<Rightarrow> nat \<Rightarrow> WeekRow list" where
  "weeksFrom today monthStart monthEnd s 0 = []"
| "weeksFrom today monthStart monthEnd s (Suc n) =
     weekFrom today monthStart monthEnd s # weeksFrom today monthStart monthEnd (s + 7) n"

text \<open>The first and last day of the grid of a month, and the number of its weeks.\<close>

definition gridStart :: "Date \<Rightarrow> Date" where
  "gridStart month = startOfWeek WEEK_START_DAY (startOfMonth month)"

definition gridEnd :: "Date \<Rightarrow> Date" where
  "gridEnd month = endOfWeek WEEK_START_DAY (endOfMonth month)"

definition weekCount :: "Date \<Rightarrow> nat" where
  "weekCount month = nat ((gridEnd month - gridStart month + 1) div 7)"

text \<open>A week row as \<open>generateMonthGrid\<close> builds it: seven consecutive days from
  \<open>startDate\<close> to \<open>endDate\<close>.\<close>

definition wellFormedWeek :: "WeekRow \<Rightarrow> bool" where
  "wellFormedWeek w =
     (map date (days w) = [startDate w..startDate w + 6] \<and> endDate w = startDate w + 6)"

text \<open>The week \<open>w\<close> and the days \<open>ts\<close> to \<open>te\<close> have a day in common.\<close>

definition touchesWeek :: "Date \<Rightarrow> Date \<Rightarrow> WeekRow \<Rightarrow> bool" where
  "touchesWeek ts te w = (ts \<le> endDate w \<and> startDate w \<le> te)"

text \<open>The segment of the task \<open>t\<close>, which runs from day \<open>ts\<close> to day \<open>te\<close>, in the
  week \<open>w\<close>: the task's days cut down to the week.\<close>

definition segmentIn :: "Task \<Rightarrow> Date \<Rightarrow> Date \<Rightarrow> WeekRow \<Rightarrow> TaskSegment" where
  "segmentIn t ts te w =
     \<lparr>task = t,
      segStartDate = civilFromDays (max ts (startDate w)),
      segEndDate = civilFromDays (min te (endDate w)),
      startColumn = max ts (startDate w) - startDate w,
      widthInColumns = min te (endDate w) - max ts (startDate w) + 1,
      rowIndex = 0\<rparr>"


text \<open>The columns a segment covers: \<open>startColumn\<close> to \<open>startColumn + widthInColumns - 1\<close>.\<close>

definition columnsOf :: "TaskSegment \<Rightarrow> int set" where
  "columnsOf seg = {startColumn seg..startColumn seg + widthInColumns seg - 1}"

text \<open>
  What holds in \<open>calculateRowIndices\<close> between two rounds of \<open>sorted.forEach\<close>, when the
  segments at the positions in \<open>placed\<close> have been placed: the array still holds the
  given segments, up to their \<open>rowIndex\<close>; a placed segment is listed in the row its
  \<open>rowIndex\<close> names; and two placed segments with the same \<open>rowIndex\<close> do not overlap.
\<close>

definition rowsInvariant ::
  "TaskSegment list \<Rightarrow> nat set \<Rightarrow> nat list list \<times> TaskSegment list \<Rightarrow> bool" where
  "rowsInvariant segments placed st =
     (length (snd st) = length segments
      \<and> (\<forall>k < length segments. \<exists>r. snd st ! k = (segments ! k)\<lparr>rowIndex := r\<rparr>)
      \<and> (\<forall>i \<in> placed. i < length segments
            \<and> rowIndex (snd st ! i) < length (fst st)
            \<and> i \<in> set (fst st ! rowIndex (snd st ! i)))
      \<and> (\<forall>i \<in> placed. \<forall>j \<in> placed.
            i \<noteq> j \<and> rowIndex (snd st ! i) = rowIndex (snd st ! j)
            \<longrightarrow> \<not> segmentsOverlap (snd st ! i) (snd st ! j)))"

section \<open>The calendar: day numbers and civil dates are in bijection\<close>

lemma month_part:
  fixes doy :: int
  assumes "0 \<le> doy" "doy \<le> 365"
  defines "mp \<equiv> (5 * doy + 2) div 153"
  defines "d \<equiv> doy - (153 * mp + 2) div 5 + 1"
  defines "m \<equiv> (if mp < 10 then mp + 3 else mp - 9)"
  shows "1 \<le> m \<and> m \<le> 12 \<and> 1 \<le> d
       \<and> (m \<noteq> 2 \<longrightarrow> d \<le> getDaysInMonth y m)
       \<and> (m = 2 \<longrightarrow> d \<le> 29 \<and> (d = 29 \<longleftrightarrow> doy = 365))
       \<and> (if m > 2 then m - 3 else m + 9) = mp
       \<and> (153 * mp + 2) div 5 + d - 1 = doy"
proof -
  have mp: "0 \<le> mp" "mp \<le> 11" "153 * mp \<le> 5 * doy + 2" "5 * doy + 2 < 153 * mp + 153"
    using assms(1,2) unfolding mp_def by arith+
  have "mp = 0 \<or> mp = 1 \<or> mp = 2 \<or> mp = 3 \<or> mp = 4 \<or> mp = 5
    \<or> mp = 6 \<or> mp = 7 \<or> mp = 8 \<or> mp = 9 \<or> mp = 10 \<or> mp = 11"
    using mp(1,2) by arith
  then consider "mp = 0" | "mp = 1" | "mp = 2" | "mp = 3" | "mp = 4" | "mp = 5"
    | "mp = 6" | "mp = 7" | "mp = 8" | "mp = 9" | "mp = 10" | "mp = 11"
    by blast
  then show ?thesis
  proof cases
    case 1 then show ?thesis using mp(3,4) assms(2) unfolding d_def m_def getDaysInMonth_def
      by (simp; arith)
  next
    case 2 then show ?thesis using mp(3,4) assms(2) unfolding d_def m_def getDaysInMonth_def
      by (simp; arith)
  next
    case 3 then show ?thesis using mp(3,4) assms(2) unfolding d_def m_def getDaysInMonth_def
      by (simp; arith)
  next
    case 4 then show ?thesis using mp(3,4) assms(2) unfolding d_def m_def getDaysInMonth_def
      by (simp; arith)
  next
    case 5 then show ?thesis using mp(3,4) assms(2) unfolding d_def m_def getDaysInMonth_def
      by (simp; arith)
  next
    case 6 then show ?thesis using mp(3,4) assms(2) unfolding d_def m_def getDaysInMonth_def
      by (simp; arith)
  next
    case 7 then show ?thesis using mp(3,4) assms(2) unfolding d_def m_def getDaysInMonth_def
      by (simp; arith)
  next
    case 8 then show ?thesis using mp(3,4) assms(2) unfolding d_def m_def getDaysInMonth_def
      by (simp; arith)
  next
    case 9 then show ?thesis using mp(3,4) assms(2) unfolding d_def m_def getDaysInMonth_def
      by (simp; arith)
  next
    case 10 then show ?thesis using mp(3,4) assms(2) unfolding d_def m_def getDaysInMonth_def
      by (simp; arith)
  next
    case 11 then show ?thesis using mp(3,4) assms(2) unfolding d_def m_def getDaysInMonth_def
      by (simp; arith)
  next
    case 12 then show ?thesis using mp(3,4) assms(2) unfolding d_def m_def getDaysInMonth_def
      by (simp; arith)
  qed
qed

lemma year_part:
  fixes doe :: int
  assumes "0 \<le> doe" "doe < 146097"
  defines "c \<equiv> min 3 (doe div 36524)"
  defines "doc \<equiv> doe - 36524 * c"
  defines "q \<equiv> doc div 1461"
  defines "dq \<equiv> doc mod 1461"
  defines "yq \<equiv> min 3 (dq div 365)"
  defines "doy \<equiv> dq - 365 * yq"
  defines "yoe \<equiv> 100 * c + 4 * q + yq"
  shows "0 \<le> yoe \<and> yoe < 400 \<and> 0 \<le> doy \<and> doy \<le> 365
       \<and> yoe * 365 + yoe div 4 - yoe div 100 + doy = doe
       \<and> (doy = 365 \<longrightarrow> isLeapYear (yoe + era * 400 + 1))"
proof -
  have c: "0 \<le> c" "c \<le> 3" "0 \<le> doc" "doc \<le> 36524" "c < 3 \<longrightarrow> doc < 36524"
    using assms(1,2) unfolding c_def doc_def by arith+
  have q: "0 \<le> q" "q \<le> 24" "0 \<le> dq" "dq \<le> 1460" "doc = 1461 * q + dq"
    "q = 24 \<and> c < 3 \<longrightarrow> dq < 1460"
    using c unfolding q_def dq_def by arith+
  have yq: "0 \<le> yq" "yq \<le> 3" "0 \<le> doy" "doy \<le> 365" "yq < 3 \<longrightarrow> doy < 365"
    using q(3,4) unfolding yq_def doy_def by arith+
  have y4: "yoe div 4 = 25 * c + q" and y100: "yoe div 100 = c"
    using c(1,2) q(1,2) yq(1,2) unfolding yoe_def by arith+
  have rng: "0 \<le> yoe" "yoe < 400"
    using c(1,2) q(1,2) yq(1,2) unfolding yoe_def by arith+
  have sum: "yoe * 365 + yoe div 4 - yoe div 100 + doy = doe"
    unfolding y4 y100 using q(5) unfolding yoe_def doy_def doc_def by arith
  have leap: "isLeapYear (yoe + era * 400 + 1)" if "doy = 365"
  proof -
    have "yq = 3" using that yq(5) yq(2) by arith
    moreover have "q < 24 \<or> c = 3"
      using that q(2,6) c(2) \<open>yq = 3\<close> unfolding doy_def by arith
    ultimately have cases: "yq = 3" "q < 24 \<or> (c = 3 \<and> q = 24)"
      using q(2) by arith+
    let ?y = "yoe + era * 400 + 1"
    have "?y = 4 * (25 * c + q + 1 + 100 * era)"
      using cases(1) unfolding yoe_def by simp
    then have m4: "?y mod 4 = 0" by simp
    have "?y mod 100 \<noteq> 0 \<or> ?y mod 400 = 0"
    proof (cases "q < 24")
      case True
      have "?y = (4 * q + 4) + 100 * (c + 4 * era)"
        using cases(1) unfolding yoe_def by simp
      then have "?y mod 100 = (4 * q + 4) mod 100"
        by (simp only: mod_mult_self2)
      also have "\<dots> = 4 * q + 4" using True q(1) by simp
      finally show ?thesis using q(1) by simp
    next
      case False
      then have "?y = 400 * (1 + era)"
        using cases unfolding yoe_def by simp
      then show ?thesis by simp
    qed
    then show ?thesis using m4 unfolding isLeapYear_def by simp
  qed
  show ?thesis using rng yq(3,4) sum leap by blast
qed

lemma daysFromCivil_civilFromDays:
  "validIso (civilFromDays z) \<and>
   daysFromCivil (yyyy (civilFromDays z)) (MM (civilFromDays z)) (dd (civilFromDays z)) = z"
proof -
  define z' where "z' = z + 719468"
  define era where "era = z' div 146097"
  define doe where "doe = z' mod 146097"
  define c where "c = min 3 (doe div 36524)"
  define doc where "doc = doe - 36524 * c"
  define q where "q = doc div 1461"
  define dq where "dq = doc mod 1461"
  define yq where "yq = min 3 (dq div 365)"
  define doy where "doy = dq - 365 * yq"
  define yoe where "yoe = 100 * c + 4 * q + yq"
  define mp where "mp = (5 * doy + 2) div 153"
  define d where "d = doy - (153 * mp + 2) div 5 + 1"
  define m where "m = (if mp < 10 then mp + 3 else mp - 9)"
  define y where "y = yoe + era * 400 + (if m \<le> 2 then 1 else 0)"
  have civ: "civilFromDays z = \<lparr>yyyy = y, MM = m, dd = d\<rparr>"
    unfolding civilFromDays_def Let_def y_def m_def d_def mp_def yoe_def doy_def yq_def
      dq_def q_def doc_def c_def doe_def era_def z'_def by (rule refl)
  have doe: "0 \<le> doe" "doe < 146097" and z': "z' = era * 146097 + doe"
    unfolding doe_def era_def by simp_all
  have yp: "0 \<le> yoe" "yoe < 400" "0 \<le> doy" "doy \<le> 365"
    "yoe * 365 + yoe div 4 - yoe div 100 + doy = doe"
    "doy = 365 \<longrightarrow> isLeapYear (yoe + era * 400 + 1)"
    using year_part [OF doe, of era]
    unfolding yoe_def doy_def yq_def dq_def q_def doc_def c_def by blast+
  have mo: "1 \<le> m" "m \<le> 12" "1 \<le> d" "m \<noteq> 2 \<longrightarrow> d \<le> getDaysInMonth y m"
    "m = 2 \<longrightarrow> d \<le> 29 \<and> (d = 29 \<longleftrightarrow> doy = 365)"
    "(if m > 2 then m - 3 else m + 9) = mp" "(153 * mp + 2) div 5 + d - 1 = doy"
    using month_part [OF yp(3,4), of y] unfolding m_def d_def mp_def by blast+
  have feb: "d \<le> getDaysInMonth y m" if "m = 2"
  proof (cases "doy = 365")
    case True
    then have "isLeapYear y" using yp(6) that unfolding y_def by simp
    then show ?thesis using mo(5) that unfolding getDaysInMonth_def by simp
  next
    case False
    then have "d \<le> 28" using mo(5) that by arith
    then show ?thesis using that unfolding getDaysInMonth_def by simp
  qed
  have valid: "validIso (civilFromDays z)"
    unfolding civ validIso_def using mo(1-4) feb by auto
  have y': "(if m \<le> 2 then y - 1 else y) = yoe + era * 400"
    unfolding y_def by simp
  have dm: "(yoe + era * 400) div 400 = era" "(yoe + era * 400) mod 400 = yoe"
    using yp(1,2) by simp_all
  have "daysFromCivil y m d = era * 146097 + doe - 719468"
    by (simp only: daysFromCivil_def Let_def y' dm mo(6,7) yp(5))
  then have "daysFromCivil y m d = z"
    using z' unfolding z'_def by linarith
  then show ?thesis using valid unfolding civ by simp
qed

lemma month_part_inv:
  fixes m d :: int
  assumes "1 \<le> m" "m \<le> 12" "1 \<le> d" "d \<le> getDaysInMonth y m"
  defines "mp \<equiv> (if m > 2 then m - 3 else m + 9)"
  defines "doy \<equiv> (153 * mp + 2) div 5 + d - 1"
  shows "0 \<le> doy \<and> doy \<le> 365 \<and> (doy = 365 \<longrightarrow> isLeapYear y \<and> m = 2)
       \<and> (5 * doy + 2) div 153 = mp \<and> doy - (153 * mp + 2) div 5 + 1 = d
       \<and> (if mp < 10 then mp + 3 else mp - 9) = m"
proof -
  have "m = 1 \<or> m = 2 \<or> m = 3 \<or> m = 4 \<or> m = 5 \<or> m = 6
    \<or> m = 7 \<or> m = 8 \<or> m = 9 \<or> m = 10 \<or> m = 11 \<or> m = 12"
    using assms(1,2) by arith
  then consider "m = 1" | "m = 2" | "m = 3" | "m = 4" | "m = 5" | "m = 6"
    | "m = 7" | "m = 8" | "m = 9" | "m = 10" | "m = 11" | "m = 12"
    by blast
  then show ?thesis
  proof cases
    case 1 then show ?thesis using assms(3,4) unfolding doy_def mp_def getDaysInMonth_def
      by (simp split: if_splits; arith)
  next
    case 2 then show ?thesis using assms(3,4) unfolding doy_def mp_def getDaysInMonth_def
      by (simp split: if_splits; arith)
  next
    case 3 then show ?thesis using assms(3,4) unfolding doy_def mp_def getDaysInMonth_def
      by (simp split: if_splits; arith)
  next
    case 4 then show ?thesis using assms(3,4) unfolding doy_def mp_def getDaysInMonth_def
      by (simp split: if_splits; arith)
  next
    case 5 then show ?thesis using assms(3,4) unfolding doy_def mp_def getDaysInMonth_def
      by (simp split: if_splits; arith)
  next
    case 6 then show ?thesis using assms(3,4) unfolding doy_def mp_def getDaysInMonth_def
      by (simp split: if_splits; arith)
  next
    case 7 then show ?thesis using assms(3,4) unfolding doy_def mp_def getDaysInMonth_def
      by (simp split: if_splits; arith)
  next
    case 8 then show ?thesis using assms(3,4) unfolding doy_def mp_def getDaysInMonth_def
      by (simp split: if_splits; arith)
  next
    case 9 then show ?thesis using assms(3,4) unfolding doy_def mp_def getDaysInMonth_def
      by (simp split: if_splits; arith)
  next
    case 10 then show ?thesis using assms(3,4) unfolding doy_def mp_def getDaysInMonth_def
      by (simp split: if_splits; arith)
  next
    case 11 then show ?thesis using assms(3,4) unfolding doy_def mp_def getDaysInMonth_def
      by (simp split: if_splits; arith)
  next
    case 12 then show ?thesis using assms(3,4) unfolding doy_def mp_def getDaysInMonth_def
      by (simp split: if_splits; arith)
  qed
qed

lemma year_part_inv:
  fixes yoe doy era :: int
  assumes "0 \<le> yoe" "yoe < 400" "0 \<le> doy" "doy \<le> 365"
    and leap: "doy = 365 \<longrightarrow> isLeapYear (yoe + era * 400 + 1)"
  defines "doe \<equiv> yoe * 365 + yoe div 4 - yoe div 100 + doy"
  defines "c \<equiv> min 3 (doe div 36524)"
  defines "doc \<equiv> doe - 36524 * c"
  defines "q \<equiv> doc div 1461"
  defines "dq \<equiv> doc mod 1461"
  defines "yq \<equiv> min 3 (dq div 365)"
  shows "0 \<le> doe \<and> doe < 146097 \<and> 100 * c + 4 * q + yq = yoe \<and> dq - 365 * yq = doy"
proof -
  define c0 where "c0 = yoe div 100"
  define q0 where "q0 = (yoe mod 100) div 4"
  define y0 where "y0 = yoe mod 4"
  have b: "0 \<le> c0" "c0 \<le> 3" "0 \<le> q0" "q0 \<le> 24" "0 \<le> y0" "y0 \<le> 3"
    using assms(1,2) unfolding c0_def q0_def y0_def by arith+
  have "yoe mod 100 mod 4 = yoe mod 4" by (simp add: mod_mod_cancel)
  then have yoe: "yoe = 100 * c0 + 4 * q0 + y0"
    unfolding c0_def q0_def y0_def
    using mult_div_mod_eq [of 100 yoe] mult_div_mod_eq [of 4 "yoe mod 100"] by linarith
  have y4: "yoe div 4 = 25 * c0 + q0" and y100: "yoe div 100 = c0"
    using b unfolding yoe by arith+
  have doe: "doe = 36524 * c0 + 1461 * q0 + 365 * y0 + doy"
    unfolding doe_def y4 y100 unfolding yoe by arith
  have lp: "y0 = 3 \<and> (q0 < 24 \<or> c0 = 3)" if "doy = 365"
  proof -
    let ?y = "yoe + era * 400 + 1"
    have L: "?y mod 4 = 0" "?y mod 100 \<noteq> 0 \<or> ?y mod 400 = 0"
      using leap that unfolding isLeapYear_def by simp_all
    have "?y = (y0 + 1) + 4 * (25 * c0 + q0 + 100 * era)"
      unfolding yoe by simp
    then have "?y mod 4 = (y0 + 1) mod 4"
      by (simp only: mod_mult_self2)
    then have y3: "y0 = 3" using L(1) b(5,6) by arith
    have "c0 = 3" if "\<not> q0 < 24"
    proof -
      have q24: "q0 = 24" using that b(4) by arith
      have "?y = 0 + 100 * (c0 + 1 + 4 * era)"
        unfolding yoe y3 q24 by simp
      then have "?y mod 100 = 0"
        by (simp only: mod_mult_self2) simp
      then have "?y mod 400 = 0" using L(2) by simp
      moreover have "?y = 100 * (c0 + 1) + 400 * era"
        unfolding yoe y3 q24 by simp
      then have "?y mod 400 = (100 * (c0 + 1)) mod 400"
        by (simp only: mod_mult_self2)
      ultimately have z: "(100 * (c0 + 1)) mod 400 = 0" by simp
      have "c0 = 0 \<or> c0 = 1 \<or> c0 = 2 \<or> c0 = 3" using b(1,2) by arith
      then show ?thesis using z by auto
    qed
    then show ?thesis using y3 by blast
  qed
  have rem: "0 \<le> 1461 * q0 + 365 * y0 + doy" "1461 * q0 + 365 * y0 + doy \<le> 36524"
    "c0 < 3 \<longrightarrow> 1461 * q0 + 365 * y0 + doy < 36524"
    using b assms(3,4) lp by arith+
  have c: "c = c0"
    unfolding c_def doe using rem b(1,2) by arith
  have doc: "doc = 1461 * q0 + (365 * y0 + doy)"
    unfolding doc_def c doe by arith
  have r2: "0 \<le> 365 * y0 + doy" "365 * y0 + doy < 1461"
    using b(5,6) assms(3,4) by arith+
  have q: "q = q0" and dq: "dq = 365 * y0 + doy"
    unfolding q_def dq_def doc using r2 by simp_all
  have yq: "yq = y0"
    unfolding yq_def dq using b(5,6) assms(3,4) lp by arith
  show ?thesis
    unfolding c q yq dq using yoe doe b assms(3,4) rem by arith
qed

lemma civilFromDays_daysFromCivil:
  assumes "validIso c"
  shows "civilFromDays (daysFromCivil (yyyy c) (MM c) (dd c)) = c"
proof -
  define y m d where "y = yyyy c" and "m = MM c" and "d = dd c"
  define y' where "y' = (if m \<le> 2 then y - 1 else y)"
  define era where "era = y' div 400"
  define yoe where "yoe = y' mod 400"
  define mp where "mp = (if m > 2 then m - 3 else m + 9)"
  define doy where "doy = (153 * mp + 2) div 5 + d - 1"
  define doe where "doe = yoe * 365 + yoe div 4 - yoe div 100 + doy"
  have v: "1 \<le> m" "m \<le> 12" "1 \<le> d" "d \<le> getDaysInMonth y m"
    using assms unfolding validIso_def y_def m_def d_def by simp_all
  have dfc: "daysFromCivil y m d = era * 146097 + doe - 719468"
    unfolding daysFromCivil_def Let_def doe_def doy_def mp_def yoe_def era_def y'_def
    by (rule refl)
  have mo: "0 \<le> doy" "doy \<le> 365" "doy = 365 \<longrightarrow> isLeapYear y \<and> m = 2"
    "(5 * doy + 2) div 153 = mp" "doy - (153 * mp + 2) div 5 + 1 = d"
    "(if mp < 10 then mp + 3 else mp - 9) = m"
    using month_part_inv [OF v] unfolding doy_def mp_def by blast+
  have yr: "0 \<le> yoe" "yoe < 400" "y' = yoe + era * 400"
    unfolding yoe_def era_def by simp_all
  have "y = yoe + era * 400 + 1" if "m = 2"
    using yr(3) that unfolding y'_def by simp
  then have leap: "doy = 365 \<longrightarrow> isLeapYear (yoe + era * 400 + 1)"
    using mo(3) by auto
  note yp = year_part_inv [OF yr(1,2) mo(1,2) leap, folded doe_def]
  have doe: "0 \<le> doe" "doe < 146097" using yp by blast+
  have z: "(era * 146097 + doe - 719468 + 719468) div 146097 = era"
    "(era * 146097 + doe - 719468 + 719468) mod 146097 = doe"
    using doe by simp_all
  have yback: "yoe + era * 400 + (if m \<le> 2 then 1 else 0) = y"
    using yr(3) unfolding y'_def by (simp split: if_splits)
  have yp': "100 * min 3 (doe div 36524)
        + 4 * ((doe - 36524 * min 3 (doe div 36524)) div 1461)
        + min 3 ((doe - 36524 * min 3 (doe div 36524)) mod 1461 div 365) = yoe"
    "(doe - 36524 * min 3 (doe div 36524)) mod 1461
        - 365 * min 3 ((doe - 36524 * min 3 (doe div 36524)) mod 1461 div 365) = doy"
    using yp by blast+
  have "civilFromDays (daysFromCivil y m d) = \<lparr>yyyy = y, MM = m, dd = d\<rparr>"
    unfolding dfc civilFromDays_def Let_def z
    by (simp only: yp' mo(4,5,6) yback)
  then show ?thesis unfolding y_def m_def d_def by simp
qed

lemma parseISO_civilFromDays [simp]: "parseISO (civilFromDays d) = Some d"
  using daysFromCivil_civilFromDays [of d] by (simp add: parseISO_def)

lemma parseISO_Some_valid: "parseISO s = Some d \<Longrightarrow> validIso s"
  by (simp add: parseISO_def split: if_splits)

lemma civilFromDays_parseISO: "parseISO s = Some d \<Longrightarrow> civilFromDays d = s"
  using civilFromDays_daysFromCivil [of s] by (auto simp: parseISO_def split: if_splits)

lemma parseISO_valid: "validIso s \<Longrightarrow> \<exists>d. parseISO s = Some d"
  by (simp add: parseISO_def)

lemma format_parseISO: "parseISO s = Some d \<Longrightarrow> format (parseISO s) = Inr s"
  by (simp add: format_def civilFromDays_parseISO)

lemma format_Some [simp]: "format (Some d) = Inr (civilFromDays d)"
  by (simp add: format_def)

lemma parseISO_inj: "parseISO a = Some d \<Longrightarrow> parseISO b = Some d \<Longrightarrow> a = b"
  using civilFromDays_parseISO by metis

section \<open>Range normalisation\<close>

lemma normalizeDateRange_valid:
  assumes "parseISO a = Some da" "parseISO b = Some db"
  shows "normalizeDateRange a b =
           (if da \<le> db then \<lparr>range_start = a, range_end = b\<rparr>
            else \<lparr>range_start = b, range_end = a\<rparr>)"
  using assms by (simp add: normalizeDateRange_def dateLe_def)

text \<open>
  Claim C8. For civil dates \<open>a\<close> and \<open>b\<close> (texts that \<open>parseISO\<close> reads as the days
  \<open>da\<close> and \<open>db\<close>), \<open>normalizeDateRange a b\<close> and \<open>normalizeDateRange b a\<close> are the same
  range; its start is the earlier and its end the later of the two dates, so that
  \<open>start \<le> end\<close>. The function is total: it returns a range for every argument and
  has no error result.
\<close>

theorem normalizeDateRange_commutes_min_max:
  assumes "parseISO a = Some da" "parseISO b = Some db"
  shows "normalizeDateRange a b = normalizeDateRange b a
       \<and> normalizeDateRange a b =
           \<lparr>range_start = (if da \<le> db then a else b), range_end = (if da \<le> db then b else a)\<rparr>
       \<and> parseISO (range_start (normalizeDateRange a b)) = Some (min da db)
       \<and> parseISO (range_end (normalizeDateRange a b)) = Some (max da db)
       \<and> dateLe (parseISO (range_start (normalizeDateRange a b)))
                 (parseISO (range_end (normalizeDateRange a b)))"
proof -
  have ab: "normalizeDateRange a b =
      (if da \<le> db then \<lparr>range_start = a, range_end = b\<rparr>
       else \<lparr>range_start = b, range_end = a\<rparr>)"
    by (rule normalizeDateRange_valid [OF assms])
  have ba: "normalizeDateRange b a =
      (if db \<le> da then \<lparr>range_start = b, range_end = a\<rparr>
       else \<lparr>range_start = a, range_end = b\<rparr>)"
    by (rule normalizeDateRange_valid [OF assms(2,1)])
  have eq: "a = b" if "da = db"
    using that assms parseISO_inj by blast
  show ?thesis
    unfolding ab ba using assms eq by (auto simp: dateLe_def min_def max_def)
qed

theorem normalizeDateRange_commutes_min_max_witness:
  "parseISO \<lparr>yyyy = 2024, MM = 3, dd = 12\<rparr> = Some 19794
   \<and> parseISO \<lparr>yyyy = 2024, MM = 3, dd = 8\<rparr> = Some 19790
   \<and> normalizeDateRange \<lparr>yyyy = 2024, MM = 3, dd = 12\<rparr> \<lparr>yyyy = 2024, MM = 3, dd = 8\<rparr>
       = normalizeDateRange \<lparr>yyyy = 2024, MM = 3, dd = 8\<rparr> \<lparr>yyyy = 2024, MM = 3, dd = 12\<rparr>
   \<and> normalizeDateRange \<lparr>yyyy = 2024, MM = 3, dd = 12\<rparr> \<lparr>yyyy = 2024, MM = 3, dd = 8\<rparr>
       = \<lparr>range_start = \<lparr>yyyy = 2024, MM = 3, dd = 8\<rparr>,
          range_end = \<lparr>yyyy = 2024, MM = 3, dd = 12\<rparr>\<rparr>"
proof -
  have a: "parseISO \<lparr>yyyy = 2024, MM = 3, dd = 12\<rparr> = Some 19794"
    by (simp add: parseISO_def validIso_def getDaysInMonth_def daysFromCivil_def)
  have b: "parseISO \<lparr>yyyy = 2024, MM = 3, dd = 8\<rparr> = Some 19790"
    by (simp add: parseISO_def validIso_def getDaysInMonth_def daysFromCivil_def)
  note th = normalizeDateRange_commutes_min_max [OF a b]
  have c: "normalizeDateRange \<lparr>yyyy = 2024, MM = 3, dd = 12\<rparr> \<lparr>yyyy = 2024, MM = 3, dd = 8\<rparr>
       = normalizeDateRange \<lparr>yyyy = 2024, MM = 3, dd = 8\<rparr> \<lparr>yyyy = 2024, MM = 3, dd = 12\<rparr>"
    using th by blast
  have d: "normalizeDateRange \<lparr>yyyy = 2024, MM = 3, dd = 12\<rparr> \<lparr>yyyy = 2024, MM = 3, dd = 8\<rparr>
       = \<lparr>range_start = \<lparr>yyyy = 2024, MM = 3, dd = 8\<rparr>,
          range_end = \<lparr>yyyy = 2024, MM = 3, dd = 12\<rparr>\<rparr>"
    using conjunct1 [OF conjunct2 [OF th]] by simp
  show ?thesis using a b c d by blast
qed

section \<open>The month grid\<close>

lemma upto_week: "[s..s + 6] = [s, s + 1, s + 2, s + 3, s + 4, s + 5, s + 6]"
  by (simp add: upto_rec1)

lemma gridLoop_week:
  assumes "index mod 7 = 0"
  shows "gridLoop today ms me ([s..s + 6] @ rest) index weeks [] =
         gridLoop today ms me rest (index + 7) (weeks @ [weekFrom today ms me s]) []"
proof -
  have m: "Suc index mod 7 \<noteq> 0" "Suc (Suc index) mod 7 \<noteq> 0"
    "Suc (Suc (Suc index)) mod 7 \<noteq> 0" "Suc (Suc (Suc (Suc index))) mod 7 \<noteq> 0"
    "Suc (Suc (Suc (Suc (Suc index)))) mod 7 \<noteq> 0"
    "Suc (Suc (Suc (Suc (Suc (Suc index))))) mod 7 \<noteq> 0"
    "Suc (Suc (Suc (Suc (Suc (Suc (Suc index)))))) mod 7 = 0"
    using assms by presburger+
  have i: "index + 7 = Suc (Suc (Suc (Suc (Suc (Suc (Suc index))))))" by simp
  show ?thesis
    unfolding upto_week i
    apply (simp only: gridLoop.simps append.simps format_Some sum.case Let_def m
        if_False if_True)
    apply (simp add: weekFrom_def calendarDay_def upto_week)
    done
qed

lemma gridLoop_weeks:
  "index mod 7 = 0 \<Longrightarrow>
   gridLoop today ms me [s..s + 7 * int n - 1] index weeks [] =
   Inr (weeks @ weeksFrom today ms me s n)"
proof (induction n arbitrary: s index weeks)
  case 0
  then show ?case by simp
next
  case (Suc n)
  have split: "[s..s + 7 * int (Suc n) - 1] = [s..s + 6] @ [s + 7..s + 7 + 7 * int n - 1]"
    using upto_split2 [of s "s + 6" "s + 7 * int (Suc n) - 1"] by (simp add: algebra_simps)
  have "(index + 7) mod 7 = 0" using Suc.prems by presburger
  then have "gridLoop today ms me [s + 7..s + 7 + 7 * int n - 1] (index + 7)
               (weeks @ [weekFrom today ms me s]) [] =
             Inr ((weeks @ [weekFrom today ms me s]) @ weeksFrom today ms me (s + 7) n)"
    by (rule Suc.IH)
  then show ?case
    unfolding split gridLoop_week [OF Suc.prems] by simp
qed

lemma daysFromCivil_day: "daysFromCivil y m d2 = daysFromCivil y m d1 + (d2 - d1)"
  by (simp add: daysFromCivil_def Let_def)

lemma getDaysInMonth_bounds: "28 \<le> getDaysInMonth y m" "getDaysInMonth y m \<le> 31"
  by (simp_all add: getDaysInMonth_def)

lemma endOfMonth_startOfMonth:
  "endOfMonth d =
   startOfMonth d + (getDaysInMonth (yyyy (civilFromDays d)) (MM (civilFromDays d)) - 1)"
  unfolding endOfMonth_def startOfMonth_def Let_def
  by (rule daysFromCivil_day)

lemma month_length: "startOfMonth d + 27 \<le> endOfMonth d" "endOfMonth d \<le> startOfMonth d + 30"
  using getDaysInMonth_bounds [of "yyyy (civilFromDays d)" "MM (civilFromDays d)"]
  unfolding endOfMonth_startOfMonth by linarith+

text \<open>The day \<open>d\<close> lies in its month, whose first day is the 1st and whose last day is
  the last day of that month of that year.\<close>

lemma month_contains:
  "startOfMonth d \<le> d \<and> d \<le> endOfMonth d"
proof -
  let ?c = "civilFromDays d"
  have v: "validIso ?c" and r: "daysFromCivil (yyyy ?c) (MM ?c) (dd ?c) = d"
    using daysFromCivil_civilFromDays [of d] by blast+
  have "startOfMonth d = d - (dd ?c - 1)"
    unfolding startOfMonth_def Let_def
    using daysFromCivil_day [of "yyyy ?c" "MM ?c" 1 "dd ?c"] r by linarith
  moreover have "endOfMonth d = d + (getDaysInMonth (yyyy ?c) (MM ?c) - dd ?c)"
    unfolding endOfMonth_def Let_def
    using daysFromCivil_day [of "yyyy ?c" "MM ?c" "getDaysInMonth (yyyy ?c) (MM ?c)" "dd ?c"] r
    by linarith
  ultimately show ?thesis using v unfolding validIso_def by linarith
qed

lemma civilFromDays_startOfMonth:
  "civilFromDays (startOfMonth d) = (civilFromDays d)\<lparr>dd := 1\<rparr>"
proof -
  let ?c = "civilFromDays d"
  have v: "validIso ?c" using daysFromCivil_civilFromDays [of d] by blast
  then have "validIso (?c\<lparr>dd := 1\<rparr>)"
    using getDaysInMonth_bounds(1) [of "yyyy ?c" "MM ?c"] unfolding validIso_def by simp
  from civilFromDays_daysFromCivil [OF this] show ?thesis
    unfolding startOfMonth_def Let_def by simp
qed

lemma civilFromDays_endOfMonth:
  "civilFromDays (endOfMonth d) =
   (civilFromDays d)\<lparr>dd := getDaysInMonth (yyyy (civilFromDays d)) (MM (civilFromDays d))\<rparr>"
proof -
  let ?c = "civilFromDays d"
  have v: "validIso ?c" using daysFromCivil_civilFromDays [of d] by blast
  then have "validIso (?c\<lparr>dd := getDaysInMonth (yyyy ?c) (MM ?c)\<rparr>)"
    using getDaysInMonth_bounds(1) [of "yyyy ?c" "MM ?c"] unfolding validIso_def by simp
  from civilFromDays_daysFromCivil [OF this] show ?thesis
    unfolding endOfMonth_def Let_def by simp
qed

text \<open>The grid starts on a Sunday on or before the 1st, ends on a Saturday on or after
  the last day of the month, and has 4, 5 or 6 whole weeks.\<close>

lemma week_align:
  fixes x :: int
  shows "(x - (x + 4) mod 7 + 4) mod 7 = 0" "(x + (6 - (x + 4) mod 7) + 4) mod 7 = 6"
proof -
  define k where "k = (x + 4) div 7"
  have e: "x + 4 - (x + 4) mod 7 = 7 * k"
    unfolding k_def by (simp add: minus_mod_eq_mult_div)
  have "x - (x + 4) mod 7 + 4 = 7 * k" using e by linarith
  then show "(x - (x + 4) mod 7 + 4) mod 7 = 0" by (simp only: mod_mult_self1_is_0)
  have "x + (6 - (x + 4) mod 7) + 4 = 6 + 7 * k" using e by linarith
  then have "(x + (6 - (x + 4) mod 7) + 4) mod 7 = (6 + 7 * k) mod 7" by (simp only:)
  also have "\<dots> = 6" by simp
  finally show "(x + (6 - (x + 4) mod 7) + 4) mod 7 = 6" .
qed

lemma startOfWeek_Sunday: "startOfWeek WEEK_START_DAY x = x - (x + 4) mod 7"
  by (simp add: startOfWeek_def WEEK_START_DAY_def getDay_def Let_def)

lemma endOfWeek_Saturday: "endOfWeek WEEK_START_DAY x = x + (6 - (x + 4) mod 7)"
  by (simp add: endOfWeek_def WEEK_START_DAY_def getDay_def Let_def)

lemma grid_span:
  "getDay (gridStart month) = 0 \<and> getDay (gridEnd month) = 6
   \<and> gridStart month \<le> startOfMonth month \<and> startOfMonth month < gridStart month + 7
   \<and> endOfMonth month \<le> gridEnd month \<and> gridEnd month < endOfMonth month + 7"
proof -
  have b: "0 \<le> (x + 4) mod 7" "(x + 4) mod 7 < 7" for x :: int
    by simp_all
  show ?thesis
    unfolding gridStart_def gridEnd_def startOfWeek_Sunday endOfWeek_Saturday getDay_def
    using week_align(1) [of "startOfMonth month"] week_align(2) [of "endOfMonth month"]
      b [of "startOfMonth month"] b [of "endOfMonth month"]
    by (intro conjI) linarith+
qed

lemma grid_weeks:
  "gridEnd month = gridStart month + 7 * int (weekCount month) - 1
   \<and> 4 \<le> weekCount month \<and> weekCount month \<le> 6"
proof -
  define a b where "a = gridStart month" and "b = gridEnd month"
  have g: "(a + 4) mod 7 = 0" "(b + 4) mod 7 = 6"
    using grid_span [of month] unfolding a_def b_def getDay_def by blast+
  have l: "a + 27 \<le> b" "b \<le> a + 42"
    using grid_span [of month] month_length [of month] unfolding a_def b_def by linarith+
  from g have "(b - a + 1) mod 7 = 0" by presburger
  then have e: "b - a + 1 = 7 * ((b - a + 1) div 7)"
    using mult_div_mod_eq [of 7 "b - a + 1"] by linarith
  have n: "4 \<le> (b - a + 1) div 7" "(b - a + 1) div 7 \<le> 6"
    using l e by linarith+
  have "int (weekCount month) = (b - a + 1) div 7"
    unfolding weekCount_def a_def b_def using n unfolding a_def b_def by simp
  then show ?thesis
    unfolding a_def [symmetric] b_def [symmetric] using e n by linarith
qed

lemma generateMonthGrid_weeksFrom:
  "generateMonthGrid today month =
   Inr (weeksFrom today (startOfMonth month) (endOfMonth month) (gridStart month)
          (weekCount month))"
proof -
  have e: "gridEnd month = gridStart month + 7 * int (weekCount month) - 1"
    and n: "4 \<le> weekCount month"
    using grid_weeks [of month] by blast+
  then have le: "\<not> gridEnd month < gridStart month" by linarith
  have "generateMonthGrid today month =
        gridLoop today (startOfMonth month) (endOfMonth month)
          [gridStart month..gridEnd month] 0 [] []"
    unfolding generateMonthGrid_def Let_def eachDayOfInterval_def
      gridStart_def [symmetric] gridEnd_def [symmetric]
    using le by simp
  also have "\<dots> = Inr ([] @ weeksFrom today (startOfMonth month) (endOfMonth month)
                         (gridStart month) (weekCount month))"
    unfolding e by (rule gridLoop_weeks) simp
  finally show ?thesis by simp
qed




text \<open>March 2024, seen from 2024-03-15 (day 19797): the month runs from day 19783 to
  day 19813, and its grid is the six weeks from Sunday 2024-02-25 (day 19778) to
  Saturday 2024-04-06 (day 19819).\<close>

lemma march_2024:
  "startOfMonth 19797 = 19783" "endOfMonth 19797 = 19813"
  "generateMonthGrid today 19797 = Inr (weeksFrom today 19783 19813 19778 6)"
proof -
  have "parseISO \<lparr>yyyy = 2024, MM = 3, dd = 15\<rparr> = Some 19797"
    by (simp add: parseISO_def validIso_def getDaysInMonth_def daysFromCivil_def)
  then have c: "civilFromDays 19797 = \<lparr>yyyy = 2024, MM = 3, dd = 15\<rparr>"
    by (rule civilFromDays_parseISO)
  have ms: "startOfMonth 19797 = 19783"
    by (simp add: startOfMonth_def c daysFromCivil_def)
  have me: "endOfMonth 19797 = 19813"
    by (simp add: endOfMonth_def c daysFromCivil_def getDaysInMonth_def)
  have gs: "gridStart 19797 = 19778"
    by (simp add: gridStart_def ms startOfWeek_Sunday)
  have ge: "gridEnd 19797 = 19819"
    by (simp add: gridEnd_def me endOfWeek_Saturday)
  have wc: "weekCount 19797 = 6"
    by (simp add: weekCount_def gs ge)
  have g: "generateMonthGrid today 19797 = Inr (weeksFrom today 19783 19813 19778 6)"
    using generateMonthGrid_weeksFrom [of today 19797] by (simp add: ms me gs wc)
  show "startOfMonth 19797 = 19783" "endOfMonth 19797 = 19813"
    "generateMonthGrid today 19797 = Inr (weeksFrom today 19783 19813 19778 6)"
    by (fact ms me g)+
qed

lemma march_2024_weeks:
  "weeksFrom today 19783 19813 19778 6 =
   [weekFrom today 19783 19813 19778, weekFrom today 19783 19813 19785,
    weekFrom today 19783 19813 19792, weekFrom today 19783 19813 19799,
    weekFrom today 19783 19813 19806, weekFrom today 19783 19813 19813]"
  by (simp add: eval_nat_numeral)


section \<open>Task segments\<close>

lemma findIndex_upto:
  "map f xs = [a..b] \<Longrightarrow> a \<le> x \<Longrightarrow> x \<le> b \<Longrightarrow>
   findIndex (\<lambda>y. Some (f y) = Some x) xs = x - a"
proof (induction xs arbitrary: a)
  case Nil
  then show ?case by simp
next
  case (Cons y ys)
  have ab: "[a..b] = a # [a + 1..b]"
    using Cons.prems(2,3) by (simp add: upto_rec1)
  then have hd: "f y = a" and tl: "map f ys = [a + 1..b]"
    using Cons.prems(1) by simp_all
  show ?case
  proof (cases "x = a")
    case True
    then show ?thesis using hd by simp
  next
    case False
    then have "a + 1 \<le> x" using Cons.prems(2) by linarith
    from Cons.IH [OF tl this Cons.prems(3)]
    have "findIndex (\<lambda>y. Some (f y) = Some x) ys = x - (a + 1)" .
    then show ?thesis using hd False \<open>a + 1 \<le> x\<close> by (simp add: Let_def)
  qed
qed

text \<open>One round of the loop over the weeks, for a task with valid dates.\<close>

lemma segmentsLoop_week:
  assumes t: "parseISO (task_start t) = Some ts" "parseISO (task_end t) = Some te"
    and w: "wellFormedWeek w"
  shows "segmentsLoop t (w # rest) segments =
         segmentsLoop t rest
           (if touchesWeek ts te w then segments @ [segmentIn t ts te w] else segments)"
proof (cases "touchesWeek ts te w")
  case False
  then show ?thesis
    using t by (auto simp: touchesWeek_def isAfter_def isBefore_def dateLt_def startOfDay_def)
next
  case True
  define a where "a = max ts (startDate w)"
  define b where "b = min te (endDate w)"
  have e: "endDate w = startDate w + 6" and ds: "map date (days w) = [startDate w..startDate w + 6]"
    using w unfolding wellFormedWeek_def by simp_all
  have ra: "startDate w \<le> a" "a \<le> startDate w + 6" and rb: "startDate w \<le> b" "b \<le> startDate w + 6"
    using True e unfolding a_def b_def touchesWeek_def by linarith+
  have ia: "findIndex (\<lambda>day. date day = a) (days w) = a - startDate w"
    using findIndex_upto [OF ds ra] by simp
  have ib: "findIndex (\<lambda>day. date day = b) (days w) = b - startDate w"
    using findIndex_upto [OF ds rb] by simp
  have sa: "(if isBefore (Some ts) (Some (startDate w)) then Some (startDate w) else Some ts) = Some a"
    unfolding a_def isBefore_def dateLt_def by (simp add: max_def)
  have sb: "(if isAfter (Some te) (Some (endDate w)) then Some (endDate w) else Some te) = Some b"
    unfolding b_def isAfter_def dateLt_def by (simp add: min_def)
  have no: "\<not> (isAfter (Some ts) (Some (endDate w)) \<or> isBefore (Some te) (Some (startDate w)))"
    using True unfolding touchesWeek_def isAfter_def isBefore_def dateLt_def by simp
  have nn: "a - startDate w \<noteq> - 1" "b - startDate w \<noteq> - 1"
    using ra rb by linarith+
  have seg: "segmentIn t ts te w =
      \<lparr>task = t, segStartDate = civilFromDays a, segEndDate = civilFromDays b,
       startColumn = a - startDate w, widthInColumns = b - startDate w - (a - startDate w) + 1,
       rowIndex = 0\<rparr>"
    unfolding segmentIn_def a_def b_def by simp
  show ?thesis
    unfolding seg
    by (simp add: t startOfDay_def no sa sb ia ib nn True Let_def)
qed

lemma segmentsLoop_weeks:
  assumes t: "parseISO (task_start t) = Some ts" "parseISO (task_end t) = Some te"
  shows "\<forall>w \<in> set weekRows. wellFormedWeek w \<Longrightarrow>
         segmentsLoop t weekRows segments =
         Inr (segments @ map (segmentIn t ts te) (filter (touchesWeek ts te) weekRows))"
proof (induction weekRows arbitrary: segments)
  case Nil
  then show ?case by simp
next
  case (Cons w rest)
  have w: "wellFormedWeek w" and r: "\<forall>w \<in> set rest. wellFormedWeek w"
    using Cons.prems by simp_all
  show ?case
    unfolding segmentsLoop_week [OF t w] Cons.IH [OF r] by simp
qed

lemma calculateTaskSegments_wellFormed:
  assumes "parseISO (task_start t) = Some ts" "parseISO (task_end t) = Some te"
    and "\<forall>w \<in> set weekRows. wellFormedWeek w"
  shows "calculateTaskSegments t weekRows =
         Inr (map (segmentIn t ts te) (filter (touchesWeek ts te) weekRows))"
  unfolding calculateTaskSegments_def segmentsLoop_weeks [OF assms] by simp

text \<open>\<open>calculateTaskSegments\<close> raises no error, whatever the task and the weeks: when it
  reaches \<open>format\<close>, the date was found in the week and is valid.\<close>

lemma findIndex_found: "findIndex P xs \<noteq> - 1 \<Longrightarrow> \<exists>x \<in> set xs. P x"
  by (induction xs) (auto simp: Let_def split: if_splits)

lemma segmentsLoop_total: "\<exists>segs. segmentsLoop t weekRows segments = Inr segs"
proof (induction weekRows arbitrary: segments)
  case Nil
  then show ?case by simp
next
  case (Cons w rest)
  define a where "a = (if isBefore (parseISO (task_start t)) (Some (startOfDay (startDate w)))
                       then Some (startOfDay (startDate w)) else parseISO (task_start t))"
  define b where "b = (if isAfter (parseISO (task_end t)) (Some (startOfDay (endDate w)))
                       then Some (startOfDay (endDate w)) else parseISO (task_end t))"
  have fa: "\<exists>d. a = Some d" if "findIndex (\<lambda>day. Some (date day) = a) (days w) \<noteq> - 1"
    using findIndex_found [OF that] by auto
  have fb: "\<exists>d. b = Some d" if "findIndex (\<lambda>day. Some (date day) = b) (days w) \<noteq> - 1"
    using findIndex_found [OF that] by auto
  show ?case
    using Cons.IH fa fb
    by (auto simp: Let_def a_def [symmetric] b_def [symmetric])
qed

lemma weeksFrom_wellFormed:
  "w \<in> set (weeksFrom today ms me s n) \<Longrightarrow> wellFormedWeek w \<and> s \<le> startDate w"
proof (induction n arbitrary: s)
  case 0
  then show ?case by simp
next
  case (Suc n)
  have "map date (map (calendarDay today ms me) [s..s + 6]) = [s..s + 6]"
    by (simp add: calendarDay_def comp_def)
  then have "wellFormedWeek (weekFrom today ms me s)"
    unfolding wellFormedWeek_def weekFrom_def by simp
  moreover have "startDate (weekFrom today ms me s) = s"
    unfolding weekFrom_def by simp
  ultimately show ?case using Suc.prems Suc.IH [of "s + 7"] by fastforce
qed

lemma weeksFrom_none_touched:
  "te < s \<Longrightarrow> filter (touchesWeek ts te) (weeksFrom today ms me s n) = []"
  using weeksFrom_wellFormed [of _ today ms me s n]
  by (fastforce simp: filter_empty_conv touchesWeek_def)



text \<open>A range inside one of the weeks touches that week only.\<close>

lemma weeksFrom_one_touched:
  "w \<in> set (weeksFrom today ms me s n) \<Longrightarrow> startDate w \<le> ts \<Longrightarrow> ts \<le> te \<Longrightarrow>
   te \<le> endDate w \<Longrightarrow> filter (touchesWeek ts te) (weeksFrom today ms me s n) = [w]"
proof (induction n arbitrary: s)
  case 0
  then show ?case by simp
next
  case (Suc n)
  let ?w = "weekFrom today ms me s"
  let ?rest = "weeksFrom today ms me (s + 7) n"
  have sw: "startDate ?w = s" "endDate ?w = s + 6"
    unfolding weekFrom_def by simp_all
  show ?case
  proof (cases "w \<in> set ?rest")
    case True
    then have "s + 7 \<le> startDate w" using weeksFrom_wellFormed by blast
    then have "\<not> touchesWeek ts te ?w"
      unfolding touchesWeek_def sw using Suc.prems(2) by linarith
    then show ?thesis
      using Suc.IH [OF True Suc.prems(2,3,4)] by simp
  next
    case False
    then have w: "w = ?w" using Suc.prems(1) by simp
    have "te < s + 7" using Suc.prems(4) unfolding w sw by linarith
    then have "filter (touchesWeek ts te) ?rest = []"
      by (rule weeksFrom_none_touched)
    moreover have "touchesWeek ts te ?w"
      using Suc.prems(2,3,4) unfolding w touchesWeek_def by linarith
    ultimately show ?thesis unfolding w by simp
  qed
qed


lemma generateMonthGrid_rows:
  assumes "generateMonthGrid today month = Inr weekRows"
  shows "weekRows = weeksFrom today (startOfMonth month) (endOfMonth month) (gridStart month)
                      (weekCount month)"
  using assms unfolding generateMonthGrid_weeksFrom by simp



text \<open>
  Claim C7. Let the week rows be the grid of a month, and let the task's range
  \<open>ts \<le> te\<close> lie inside one week \<open>w\<close> of it. Then \<open>calculateTaskSegments\<close> returns exactly
  one segment, and its \<open>widthInColumns\<close> is \<open>dayCountInclusive\<close> of the task's range.
\<close>

theorem calculateTaskSegments_single_week:
  assumes "generateMonthGrid today month = Inr weekRows"
    and "parseISO (task_start t) = Some ts" "parseISO (task_end t) = Some te"
    and "ts \<le> te"
    and "w \<in> set weekRows" "startDate w \<le> ts" "te \<le> endDate w"
  shows "\<exists>seg. calculateTaskSegments t weekRows = Inr [seg]
     \<and> dayCountInclusive (task_start t) (task_end t) = Some (widthInColumns seg)
     \<and> seg = segmentIn t ts te w"
proof -
  define ms me s n where "ms = startOfMonth month" and "me = endOfMonth month"
    and "s = gridStart month" and "n = weekCount month"
  have rows: "weekRows = weeksFrom today ms me s n"
    unfolding ms_def me_def s_def n_def by (rule generateMonthGrid_rows [OF assms(1)])
  have wf: "\<forall>w \<in> set weekRows. wellFormedWeek w"
    unfolding rows using weeksFrom_wellFormed by blast
  have f: "filter (touchesWeek ts te) weekRows = [w]"
    using assms(5) unfolding rows by (rule weeksFrom_one_touched) (fact assms(6,4,7))+
  have c: "calculateTaskSegments t weekRows = Inr [segmentIn t ts te w]"
    unfolding calculateTaskSegments_wellFormed [OF assms(2,3) wf] f by simp
  have "widthInColumns (segmentIn t ts te w) = te - ts + 1"
    using assms(6,7) by (simp add: segmentIn_def)
  moreover have "dayCountInclusive (task_start t) (task_end t) = Some (te - ts + 1)"
    by (simp add: dayCountInclusive_def differenceInDays_def assms(2,3))
  ultimately have d: "dayCountInclusive (task_start t) (task_end t) =
      Some (widthInColumns (segmentIn t ts te w))"
    by simp
  show ?thesis
    by (intro exI [of _ "segmentIn t ts te w"] conjI) (fact c d refl)+
qed

text \<open>The task from 2024-03-05 to 2024-03-07 lies in the week of 2024-03-03: one
  segment, three columns wide, from column 2.\<close>

theorem calculateTaskSegments_single_week_witness:
  "\<exists>weekRows seg.
     generateMonthGrid 0 19797 = Inr weekRows
     \<and> calculateTaskSegments
          \<lparr>task_id = ''a'', task_name = ''A'', task_category = ToDo,
           task_start = \<lparr>yyyy = 2024, MM = 3, dd = 5\<rparr>,
           task_end = \<lparr>yyyy = 2024, MM = 3, dd = 7\<rparr>\<rparr> weekRows = Inr [seg]
     \<and> dayCountInclusive \<lparr>yyyy = 2024, MM = 3, dd = 5\<rparr> \<lparr>yyyy = 2024, MM = 3, dd = 7\<rparr> = Some 3
     \<and> widthInColumns seg = 3 \<and> startColumn seg = 2"
proof -
  let ?t = "\<lparr>task_id = ''a'', task_name = ''A'', task_category = ToDo,
             task_start = \<lparr>yyyy = 2024, MM = 3, dd = 5\<rparr>,
             task_end = \<lparr>yyyy = 2024, MM = 3, dd = 7\<rparr>\<rparr>"
  let ?rows = "weeksFrom 0 19783 19813 19778 6"
  let ?w = "weekFrom 0 19783 19813 19785"
  have g: "generateMonthGrid 0 19797 = Inr ?rows" by (rule march_2024(3))
  have a: "parseISO (task_start ?t) = Some 19787"
    by (simp add: parseISO_def validIso_def getDaysInMonth_def daysFromCivil_def)
  have b: "parseISO (task_end ?t) = Some 19789"
    by (simp add: parseISO_def validIso_def getDaysInMonth_def daysFromCivil_def)
  have w: "?w \<in> set ?rows" unfolding march_2024_weeks by simp
  have h: "startDate ?w \<le> 19787" "19789 \<le> endDate ?w"
    by (simp_all add: weekFrom_def)
  obtain seg where S: "calculateTaskSegments ?t ?rows = Inr [seg]
     \<and> dayCountInclusive (task_start ?t) (task_end ?t) = Some (widthInColumns seg)
     \<and> seg = segmentIn ?t 19787 19789 ?w"
    using calculateTaskSegments_single_week [OF g a b _ w h] by auto
  note c = S [THEN conjunct1] and d = S [THEN conjunct2, THEN conjunct1]
    and e = S [THEN conjunct2, THEN conjunct2]
  have w3: "widthInColumns seg = 3" and s2: "startColumn seg = 2"
    unfolding e by (simp_all add: segmentIn_def weekFrom_def)
  have d3: "dayCountInclusive \<lparr>yyyy = 2024, MM = 3, dd = 5\<rparr> \<lparr>yyyy = 2024, MM = 3, dd = 7\<rparr> = Some 3"
    using d w3 by simp
  show ?thesis
    by (intro exI [of _ ?rows] exI [of _ seg] conjI) (fact g c d3 w3 s2)+
qed

section \<open>Row stacking\<close>

declare placeLoop.simps [simp del]

lemma segmentsOverlap_sym: "segmentsOverlap a b = segmentsOverlap b a"
  by (auto simp: segmentsOverlap_def Let_def)

lemma segmentsOverlap_rowIndex [simp]:
  "segmentsOverlap (a\<lparr>rowIndex := r\<rparr>) b = segmentsOverlap a b"
  "segmentsOverlap a (b\<lparr>rowIndex := r\<rparr>) = segmentsOverlap a b"
  by (simp_all add: segmentsOverlap_def)

lemma columnsOf_overlap: "columnsOf a \<inter> columnsOf b \<noteq> {} \<Longrightarrow> segmentsOverlap a b"
  by (auto simp: columnsOf_def segmentsOverlap_def Let_def)

text \<open>The loop \<open>while (!placed)\<close> ends in a new, empty row or in the first row from
  \<open>rowIdx\<close> on in which nothing overlaps the segment.\<close>

lemma placeLoop_result:
  "placeLoop segment store rows rowIdx = (rows', r) \<Longrightarrow> rowIdx \<le> length rows \<Longrightarrow>
   (r = length rows \<and> rows' = rows @ [[]])
   \<or> (r < length rows \<and> rows' = rows
       \<and> \<not> list_ex (\<lambda>existing. segmentsOverlap segment (store ! existing)) (rows ! r))"
proof (induction segment store rows rowIdx rule: placeLoop.induct)
  case (1 segment store rows rowIdx)
  show ?case
  proof (cases "rowIdx \<ge> length rows")
    case True
    then show ?thesis
      using "1.prems" by (simp add: placeLoop.simps [of segment store rows rowIdx])
  next
    case False
    show ?thesis
    proof (cases "list_ex (\<lambda>existing. segmentsOverlap segment (store ! existing)) (rows ! rowIdx)")
      case True
      then have "placeLoop segment store rows (rowIdx + 1) = (rows', r)"
        using "1.prems"(1) False by (simp add: placeLoop.simps [of segment store rows rowIdx])
      moreover have "rowIdx + 1 \<le> length rows" using False by simp
      ultimately show ?thesis
        using "1.IH" [OF False refl] True by simp
    next
      case nov: False
      then have "rows' = rows" "r = rowIdx"
        using "1.prems"(1) False by (simp_all add: placeLoop.simps [of segment store rows rowIdx])
      then show ?thesis using nov False by simp
    qed
  qed
qed

lemma placeSegment_invariant:
  assumes inv: "rowsInvariant segments placed st"
    and ref: "ref < length segments" "ref \<notin> placed"
  shows "rowsInvariant segments (insert ref placed) (placeSegment ref st)"
proof -
  obtain rows store where st: "st = (rows, store)" by (cases st)
  define segment where "segment = store ! ref"
  obtain rows' r where pl: "placeLoop segment store rows 0 = (rows', r)"
    by (cases "placeLoop segment store rows 0")
  define rows'' where "rows'' = rows'[r := rows' ! r @ [ref]]"
  define store' where "store' = store[ref := segment\<lparr>rowIndex := r\<rparr>]"
  have ps: "placeSegment ref st = (rows'', store')"
    unfolding placeSegment_def st rows''_def store'_def segment_def [symmetric]
    by (simp add: pl Let_def segment_def [symmetric])
  have len: "length store = length segments"
    and same: "\<forall>k < length segments. \<exists>q. store ! k = (segments ! k)\<lparr>rowIndex := q\<rparr>"
    and listed: "\<forall>i \<in> placed. i < length segments \<and> rowIndex (store ! i) < length rows
                   \<and> i \<in> set (rows ! rowIndex (store ! i))"
    and apart: "\<forall>i \<in> placed. \<forall>j \<in> placed.
                   i \<noteq> j \<and> rowIndex (store ! i) = rowIndex (store ! j)
                   \<longrightarrow> \<not> segmentsOverlap (store ! i) (store ! j)"
    using inv unfolding rowsInvariant_def st by simp_all
  from placeLoop_result [OF pl]
  have res: "(r = length rows \<and> rows' = rows @ [[]])
      \<or> (r < length rows \<and> rows' = rows
          \<and> \<not> list_ex (\<lambda>existing. segmentsOverlap segment (store ! existing)) (rows ! r))"
    by simp
  have rlen: "r < length rows'" "length rows \<le> length rows'"
    using res by auto
  have grow: "set (rows ! q) \<subseteq> set (rows'' ! q)" if "q < length rows" for q
  proof -
    have "rows' ! q = rows ! q" using res that by (auto simp: nth_append)
    then show ?thesis
      unfolding rows''_def using rlen that by (cases "q = r") auto
  qed
  have old: "store' ! i = store ! i" if "i \<in> placed" for i
  proof -
    have "ref \<noteq> i" using that ref(2) by blast
    then show ?thesis unfolding store'_def by simp
  qed
  have new: "store' ! ref = segment\<lparr>rowIndex := r\<rparr>"
    unfolding store'_def using ref(1) len by simp
  have free: "\<not> segmentsOverlap segment (store ! j)"
    if "j \<in> placed" "rowIndex (store ! j) = r" for j
  proof -
    have j: "rowIndex (store ! j) < length rows" "j \<in> set (rows ! rowIndex (store ! j))"
      using listed that(1) by blast+
    then have "r < length rows" using that(2) by simp
    then have "\<not> list_ex (\<lambda>existing. segmentsOverlap segment (store ! existing)) (rows ! r)"
      using res by auto
    then show ?thesis using j(2) that(2) by (auto simp: list_ex_iff)
  qed
  have 1: "length store' = length segments"
    unfolding store'_def using len by simp
  have 2: "\<forall>k < length segments. \<exists>q. store' ! k = (segments ! k)\<lparr>rowIndex := q\<rparr>"
  proof (intro allI impI)
    fix k assume k: "k < length segments"
    then obtain q where q: "store ! k = (segments ! k)\<lparr>rowIndex := q\<rparr>" using same by blast
    show "\<exists>q. store' ! k = (segments ! k)\<lparr>rowIndex := q\<rparr>"
    proof (cases "k = ref")
      case True
      then have "store' ! k = (segments ! k)\<lparr>rowIndex := r\<rparr>"
        using new q unfolding segment_def by simp
      then show ?thesis by blast
    next
      case False
      then have "store' ! k = store ! k" unfolding store'_def by simp
      then show ?thesis using q by auto
    qed
  qed
  have 3: "\<forall>i \<in> insert ref placed. i < length segments
             \<and> rowIndex (store' ! i) < length rows''
             \<and> i \<in> set (rows'' ! rowIndex (store' ! i))"
  proof
    fix i assume "i \<in> insert ref placed"
    then consider "i = ref" | "i \<in> placed" by blast
    then show "i < length segments \<and> rowIndex (store' ! i) < length rows''
                 \<and> i \<in> set (rows'' ! rowIndex (store' ! i))"
    proof cases
      case 1
      then show ?thesis
        using ref(1) new rlen(1) unfolding rows''_def by simp
    next
      case 2
      then have "rowIndex (store ! i) < length rows" "i \<in> set (rows ! rowIndex (store ! i))"
        "i < length segments"
        using listed by blast+
      then show ?thesis
        using grow [of "rowIndex (store ! i)"] rlen(2) old [OF 2] unfolding rows''_def by auto
    qed
  qed
  have 4: "\<forall>i \<in> insert ref placed. \<forall>j \<in> insert ref placed.
             i \<noteq> j \<and> rowIndex (store' ! i) = rowIndex (store' ! j)
             \<longrightarrow> \<not> segmentsOverlap (store' ! i) (store' ! j)"
  proof (intro ballI impI)
    fix i j
    assume i: "i \<in> insert ref placed" and j: "j \<in> insert ref placed"
      and ij: "i \<noteq> j \<and> rowIndex (store' ! i) = rowIndex (store' ! j)"
    consider "i = ref" "j \<in> placed" | "i \<in> placed" "j = ref" | "i \<in> placed" "j \<in> placed"
      using i j ij by blast
    then show "\<not> segmentsOverlap (store' ! i) (store' ! j)"
    proof cases
      case 1
      then have "rowIndex (store ! j) = r" using ij new old by simp
      then show ?thesis using free [OF 1(2)] 1 new old by simp
    next
      case 2
      then have "rowIndex (store ! i) = r" using ij new old by simp
      then show ?thesis
        using free [OF 2(1)] 2 new old segmentsOverlap_sym by simp
    next
      case 3
      then show ?thesis using apart ij old by simp
    qed
  qed
  show ?thesis
    unfolding rowsInvariant_def ps using 1 2 3 4 by simp
qed

lemma fold_placeSegment_invariant:
  "rowsInvariant segments placed st \<Longrightarrow> distinct refs \<Longrightarrow>
   \<forall>ref \<in> set refs. ref < length segments \<and> ref \<notin> placed \<Longrightarrow>
   rowsInvariant segments (placed \<union> set refs) (fold placeSegment refs st)"
proof (induction refs arbitrary: placed st)
  case Nil
  then show ?case by simp
next
  case (Cons ref refs)
  have "rowsInvariant segments (insert ref placed) (placeSegment ref st)"
    using Cons.prems by (intro placeSegment_invariant) simp_all
  moreover have "distinct refs" using Cons.prems(2) by simp
  moreover have "\<forall>x \<in> set refs. x < length segments \<and> x \<notin> insert ref placed"
    using Cons.prems(2,3) by auto
  ultimately have "rowsInvariant segments (insert ref placed \<union> set refs)
      (fold placeSegment refs (placeSegment ref st))"
    by (rule Cons.IH)
  then show ?case by simp
qed

lemma calculateRowIndices_invariant:
  "rowsInvariant segments {..<length segments}
     (fold placeSegment (sort_key (\<lambda>ref. startColumn (segments ! ref)) [0..<length segments])
        ([], segments))"
proof -
  let ?sorted = "sort_key (\<lambda>ref. startColumn (segments ! ref)) [0..<length segments]"
  have "\<exists>r. x = x\<lparr>rowIndex := r\<rparr>" for x :: TaskSegment
    by (rule exI [of _ "rowIndex x"]) simp
  then have init: "rowsInvariant segments {} ([], segments)"
    unfolding rowsInvariant_def by simp
  have "rowsInvariant segments ({} \<union> set ?sorted) (fold placeSegment ?sorted ([], segments))"
    by (rule fold_placeSegment_invariant [OF init]) simp_all
  moreover have "{} \<union> set ?sorted = {..<length segments}" by auto
  ultimately show ?thesis by simp
qed

text \<open>
  Claim C3. \<open>calculateRowIndices\<close> returns the given segments with only \<open>rowIndex\<close>
  changed, and any two of them (at different positions of the list) whose column
  intervals \<open>[startColumn, startColumn + widthInColumns - 1]\<close> have a column in common, or
  which \<open>segmentsOverlap\<close> reports as overlapping, get different \<open>rowIndex\<close> values.
\<close>

theorem calculateRowIndices_rows_apart:
  "length (calculateRowIndices segments) = length segments
   \<and> (\<forall>k < length segments.
        \<exists>r. calculateRowIndices segments ! k = (segments ! k)\<lparr>rowIndex := r\<rparr>)
   \<and> (\<forall>i < length segments. \<forall>j < length segments.
        i \<noteq> j
        \<and> (columnsOf (calculateRowIndices segments ! i)
              \<inter> columnsOf (calculateRowIndices segments ! j) \<noteq> {}
           \<or> segmentsOverlap (calculateRowIndices segments ! i)
                (calculateRowIndices segments ! j))
        \<longrightarrow> rowIndex (calculateRowIndices segments ! i)
              \<noteq> rowIndex (calculateRowIndices segments ! j))"
proof -
  define st where
    "st = fold placeSegment
            (sort_key (\<lambda>ref. startColumn (segments ! ref)) [0..<length segments])
            ([], segments)"
  have out: "calculateRowIndices segments = snd st"
    unfolding calculateRowIndices_def st_def Let_def by (rule refl)
  have inv: "rowsInvariant segments {..<length segments} st"
    unfolding st_def by (rule calculateRowIndices_invariant)
  have 1: "length (snd st) = length segments"
    and 2: "\<forall>k < length segments. \<exists>r. snd st ! k = (segments ! k)\<lparr>rowIndex := r\<rparr>"
    and apart: "\<forall>i \<in> {..<length segments}. \<forall>j \<in> {..<length segments}.
                   i \<noteq> j \<and> rowIndex (snd st ! i) = rowIndex (snd st ! j)
                   \<longrightarrow> \<not> segmentsOverlap (snd st ! i) (snd st ! j)"
    using inv unfolding rowsInvariant_def by blast+
  have 3: "\<forall>i < length segments. \<forall>j < length segments.
        i \<noteq> j
        \<and> (columnsOf (snd st ! i) \<inter> columnsOf (snd st ! j) \<noteq> {}
           \<or> segmentsOverlap (snd st ! i) (snd st ! j))
        \<longrightarrow> rowIndex (snd st ! i) \<noteq> rowIndex (snd st ! j)"
  proof (intro allI impI)
    fix i j
    assume i: "i < length segments" and j: "j < length segments"
      and h: "i \<noteq> j \<and> (columnsOf (snd st ! i) \<inter> columnsOf (snd st ! j) \<noteq> {}
                \<or> segmentsOverlap (snd st ! i) (snd st ! j))"
    then have "segmentsOverlap (snd st ! i) (snd st ! j)"
      using columnsOf_overlap by blast
    then show "rowIndex (snd st ! i) \<noteq> rowIndex (snd st ! j)"
      using apart i j h by auto
  qed
  show ?thesis unfolding out using 1 2 3 by blast
qed

text \<open>Two segments of one week, B on columns 2 to 4 and A on columns 1 to 3: A, which
  starts first, gets row 0 and B gets row 1.\<close>

theorem calculateRowIndices_rows_apart_witness:
  "calculateRowIndices
     [\<lparr>task = \<lparr>task_id = ''b'', task_name = ''B'', task_category = ToDo,
               task_start = \<lparr>yyyy = 2024, MM = 3, dd = 5\<rparr>,
               task_end = \<lparr>yyyy = 2024, MM = 3, dd = 7\<rparr>\<rparr>,
       segStartDate = \<lparr>yyyy = 2024, MM = 3, dd = 5\<rparr>,
       segEndDate = \<lparr>yyyy = 2024, MM = 3, dd = 7\<rparr>,
       startColumn = 2, widthInColumns = 3, rowIndex = 0\<rparr>,
      \<lparr>task = \<lparr>task_id = ''a'', task_name = ''A'', task_category = Review,
               task_start = \<lparr>yyyy = 2024, MM = 3, dd = 4\<rparr>,
               task_end = \<lparr>yyyy = 2024, MM = 3, dd = 6\<rparr>\<rparr>,
       segStartDate = \<lparr>yyyy = 2024, MM = 3, dd = 4\<rparr>,
       segEndDate = \<lparr>yyyy = 2024, MM = 3, dd = 6\<rparr>,
       startColumn = 1, widthInColumns = 3, rowIndex = 0\<rparr>]
   = [\<lparr>task = \<lparr>task_id = ''b'', task_name = ''B'', task_category = ToDo,
               task_start = \<lparr>yyyy = 2024, MM = 3, dd = 5\<rparr>,
               task_end = \<lparr>yyyy = 2024, MM = 3, dd = 7\<rparr>\<rparr>,
       segStartDate = \<lparr>yyyy = 2024, MM = 3, dd = 5\<rparr>,
       segEndDate = \<lparr>yyyy = 2024, MM = 3, dd = 7\<rparr>,
       startColumn = 2, widthInColumns = 3, rowIndex = 1\<rparr>,
      \<lparr>task = \<lparr>task_id = ''a'', task_name = ''A'', task_category = Review,
               task_start = \<lparr>yyyy = 2024, MM = 3, dd = 4\<rparr>,
               task_end = \<lparr>yyyy = 2024, MM = 3, dd = 6\<rparr>\<rparr>,
       segStartDate = \<lparr>yyyy = 2024, MM = 3, dd = 4\<rparr>,
       segEndDate = \<lparr>yyyy = 2024, MM = 3, dd = 6\<rparr>,
       startColumn = 1, widthInColumns = 3, rowIndex = 0\<rparr>]
   \<and> columnsOf
        \<lparr>task = \<lparr>task_id = ''b'', task_name = ''B'', task_category = ToDo,
               task_start = \<lparr>yyyy = 2024, MM = 3, dd = 5\<rparr>,
               task_end = \<lparr>yyyy = 2024, MM = 3, dd = 7\<rparr>\<rparr>,
         segStartDate = \<lparr>yyyy = 2024, MM = 3, dd = 5\<rparr>,
         segEndDate = \<lparr>yyyy = 2024, MM = 3, dd = 7\<rparr>,
         startColumn = 2, widthInColumns = 3, rowIndex = 1\<rparr>
      \<inter> columnsOf
        \<lparr>task = \<lparr>task_id = ''a'', task_name = ''A'', task_category = Review,
               task_start = \<lparr>yyyy = 2024, MM = 3, dd = 4\<rparr>,
               task_end = \<lparr>yyyy = 2024, MM = 3, dd = 6\<rparr>\<rparr>,
         segStartDate = \<lparr>yyyy = 2024, MM = 3, dd = 4\<rparr>,
         segEndDate = \<lparr>yyyy = 2024, MM = 3, dd = 6\<rparr>,
         startColumn = 1, widthInColumns = 3, rowIndex = 0\<rparr> \<noteq> {}"
proof -
  define B where "B = \<lparr>task = \<lparr>task_id = ''b'', task_name = ''B'', task_category = ToDo,
               task_start = \<lparr>yyyy = 2024, MM = 3, dd = 5\<rparr>,
               task_end = \<lparr>yyyy = 2024, MM = 3, dd = 7\<rparr>\<rparr>,
       segStartDate = \<lparr>yyyy = 2024, MM = 3, dd = 5\<rparr>,
       segEndDate = \<lparr>yyyy = 2024, MM = 3, dd = 7\<rparr>,
       startColumn = 2, widthInColumns = 3, rowIndex = 0\<rparr>"
  define A where "A = \<lparr>task = \<lparr>task_id = ''a'', task_name = ''A'', task_category = Review,
               task_start = \<lparr>yyyy = 2024, MM = 3, dd = 4\<rparr>,
               task_end = \<lparr>yyyy = 2024, MM = 3, dd = 6\<rparr>\<rparr>,
       segStartDate = \<lparr>yyyy = 2024, MM = 3, dd = 4\<rparr>,
       segEndDate = \<lparr>yyyy = 2024, MM = 3, dd = 6\<rparr>,
       startColumn = 1, widthInColumns = 3, rowIndex = 0\<rparr>"
  have AB: "startColumn A = 1" "widthInColumns A = 3" "startColumn B = 2" "widthInColumns B = 3"
    unfolding A_def B_def by simp_all
  have ov: "segmentsOverlap A B" "segmentsOverlap B A"
    by (simp_all add: segmentsOverlap_def AB)
  have srt: "sort_key (\<lambda>ref. startColumn ([B, A] ! ref)) [0..<length [B, A]] = [Suc 0, 0]"
    by (simp add: AB upt_rec [of 0] upt_rec [of 1])
  have p1: "placeSegment (Suc 0) ([], [B, A]) = ([[Suc 0]], [B, A\<lparr>rowIndex := 0\<rparr>])"
    by (simp add: placeSegment_def placeLoop.simps)
  have p0: "placeSegment 0 ([[Suc 0]], [B, A\<lparr>rowIndex := 0\<rparr>]) =
            ([[Suc 0], [0]], [B\<lparr>rowIndex := Suc 0\<rparr>, A\<lparr>rowIndex := 0\<rparr>])"
    by (simp add: placeSegment_def placeLoop.simps ov)
  have ev: "calculateRowIndices [B, A] = [B\<lparr>rowIndex := 1\<rparr>, A\<lparr>rowIndex := 0\<rparr>]"
    unfolding calculateRowIndices_def Let_def srt by (simp add: p1 p0)
  have "(2::int) \<in> columnsOf (B\<lparr>rowIndex := Suc 0\<rparr>) \<inter> columnsOf (A\<lparr>rowIndex := 0\<rparr>)"
    by (simp add: columnsOf_def AB)
  then have ne: "columnsOf (B\<lparr>rowIndex := Suc 0\<rparr>) \<inter> columnsOf (A\<lparr>rowIndex := 0\<rparr>) \<noteq> {}"
    by blast
  note apart = calculateRowIndices_rows_apart [of "[B, A]", THEN conjunct2, THEN conjunct2,
      rule_format, of 0 1]
  have "rowIndex (calculateRowIndices [B, A] ! 0) \<noteq> rowIndex (calculateRowIndices [B, A] ! 1)"
    by (rule apart) (use ne in \<open>simp_all add: ev\<close>)
  then show ?thesis
    using ev ne unfolding A_def B_def by simp
qed

end
